theory Spec2Isabelle
  imports Main "HOL-Library.List_Lexorder" "HOL-Library.Char_ord" "HOL-Library.Option_ord"
    "HOL-Library.Multiset" "HOL-Library.Word"
begin

section \<open>The tables of database.js\<close>

text \<open>
  The three tables of \<^verbatim>\<open>initializeDatabase\<close>. A table is the list of its rows in rowid
  order. TEXT columns are strings, compared bytewise as SQLite's default collation does
  (the lexicographic order on \<^typ>\<open>char list\<close>); a column that can hold NULL is an option,
  and NULL sorts below every value, as \<open>None\<close> does. The FOREIGN KEY clauses are not
  modelled: nothing in the repository switches their enforcement on.

  The content of a feed entry and the summary cut from it are JavaScript strings that the
  code takes apart by position, so they are lists of UTF-16 code units. The column
  \<open>a_summary\<close> holds the string that reading the row gives; what that is for a string
  bound by the INSERT is a matter of the SQL engine (see \<open>stored_text\<close> below). The other
  texts are never cut by the code; they are taken as well-formed text, which the database
  gives back as it was bound.
\<close>

type_synonym js_string = "16 word list"

record user =
  u_id :: string
  u_email :: string
  u_password :: string
  u_created_at :: string

record source =
  s_id :: int
  s_user_id :: string
  s_name :: string
  s_url :: string
  s_type :: string
  s_enabled :: int
  s_created_at :: string

record article =
  a_id :: int
  a_user_id :: string
  a_source_id :: int
  a_source_name :: string
  a_title :: string
  a_link :: string
  a_summary :: js_string
  a_published_at :: "string option"
  a_fetched_at :: string

text \<open>
  The process state: the in-memory database \<^verbatim>\<open>db\<close> (tables and the two AUTOINCREMENT
  sequences), the module variable \<^verbatim>\<open>isRunning\<close> of server.js, and a logical time
  \<open>tick\<close> that advances with every statement run and every save, so that the
  environment can answer each of them separately.
\<close>

record state =
  users :: "user list"
  sources :: "source list"
  articles :: "article list"
  sources_seq :: int
  articles_seq :: int
  isRunning :: bool
  tick :: nat

datatype error = Constraint_failed | Bind_failed | Write_failed | Feed_failed | Session_failed

text \<open>What rss-parser hands over for one entry of a feed; an absent field is \<open>None\<close>.\<close>

record feed_item =
  fi_title :: "string option"
  fi_link :: "string option"
  fi_pubDate :: "string option"
  fi_contentSnippet :: "js_string option"
  fi_content :: "js_string option"

text \<open>The objects built by \<^verbatim>\<open>fetchSource\<close>.\<close>

record item =
  it_title :: "string option"
  it_link :: "string option"
  it_published :: "string option"
  it_content :: js_string

record parsed_url =
  protocol :: string
  hostname :: string

text \<open>
  Everything the code asks of libraries and of the outside world, as parameters:
  the feed parser's answer for a URL, SQLite's \<^verbatim>\<open>datetime('now')\<close>, whether a write of the
  database file succeeds, the text of an exception's \<^verbatim>\<open>message\<close>, the random user id,
  bcrypt, \<^verbatim>\<open>new URL\<close>, \<^verbatim>\<open>parseInt\<close>, the session store, and the builtin
  \<^verbatim>\<open>String.prototype.toLowerCase\<close>, which lowers the letters of every script and is not
  defined in the repository. Three more parameters are facts about the SQL engine:

    \<^item> \<open>stored_text\<close>: the string that a TEXT column gives back for a string bound to it.
      sql.js hands SQLite the UTF-8 encoding of the string, and a string that ends inside
      a surrogate pair has none, so the column need not give back what was bound;

    \<^item> \<open>binds_undefined_as_null\<close>: whether \<^verbatim>\<open>undefined\<close> is bound as NULL or refused;

    \<^item> \<open>counters_survive_export\<close>: whether the counters behind \<^verbatim>\<open>getRowsModified()\<close> and
      \<^verbatim>\<open>last_insert_rowid()\<close> survive the \<^verbatim>\<open>db.export()\<close> of \<^verbatim>\<open>saveDatabase\<close>, which runs
      before they are read. In sql.js they do not: the export resets both to 0.
\<close>

record env =
  parseURL :: "nat \<Rightarrow> string \<Rightarrow> error + feed_item list"
  clock :: "nat \<Rightarrow> string"
  disk_ok :: "nat \<Rightarrow> bool"
  error_message :: "error \<Rightarrow> string"
  new_user_id :: "nat \<Rightarrow> string"
  bcrypt_hash :: "string \<Rightarrow> string"
  new_URL :: "string \<Rightarrow> parsed_url option"
  parseInt :: "string \<Rightarrow> int option"
  session_save_ok :: "nat \<Rightarrow> bool"
  toLowerCase :: "string \<Rightarrow> string"
  stored_text :: "js_string \<Rightarrow> js_string"
  binds_undefined_as_null :: bool
  counters_survive_export :: bool

section \<open>JavaScript values\<close>

text \<open>\<^verbatim>\<open>!x\<close> for a value that is a string or undefined.\<close>

definition truthy :: "'a list option \<Rightarrow> bool" where
  "truthy x = (case x of None \<Rightarrow> False | Some s \<Rightarrow> s \<noteq> [])"

text \<open>
  The lowercase form of an ASCII letter. The \<^verbatim>\<open>i\<close> flag of a regular expression compares
  characters through it: a pattern letter from a to z matches that letter in either case
  and nothing else.
\<close>

definition lower_char :: "char \<Rightarrow> char" where
  "lower_char c =
     (case map_of (zip ''ABCDEFGHIJKLMNOPQRSTUVWXYZ'' ''abcdefghijklmnopqrstuvwxyz'') c of
        None \<Rightarrow> c
      | Some l \<Rightarrow> l)"

text \<open>The decimal digits of a number inside a template string.\<close>

fun dec :: "nat \<Rightarrow> string" where
  "dec n = (if n < 10 then [''0123456789'' ! n] else dec (n div 10) @ [''0123456789'' ! (n mod 10)])"

declare dec.simps [simp del]

section \<open>database.js\<close>

type_synonym 'a result = "(error + 'a) \<times> state"

definition saveDatabase :: "env \<Rightarrow> state \<Rightarrow> unit result" where
  "saveDatabase e st =
     (if disk_ok e (tick st) then Inr () else Inl Write_failed, st\<lparr>tick := Suc (tick st)\<rparr>)"

text \<open>
  An INTEGER PRIMARY KEY AUTOINCREMENT column: the new rowid is one more than the largest
  rowid the table has or has ever had.
\<close>

definition next_rowid :: "int \<Rightarrow> int list \<Rightarrow> int" where
  "next_rowid seq ids = foldr max ids seq + 1"

subsection \<open>userQueries\<close>

definition userQueries_create :: "env \<Rightarrow> state \<Rightarrow> string \<Rightarrow> string \<Rightarrow> string \<Rightarrow> unit result" where
  "userQueries_create e st uid email password =
     (if uid \<in> set (map u_id (users st)) \<or> email \<in> set (map u_email (users st))
      then (Inl Constraint_failed, st\<lparr>tick := Suc (tick st)\<rparr>)
      else saveDatabase e
             (st\<lparr>users := users st @
                    [\<lparr>u_id = uid, u_email = email, u_password = password,
                      u_created_at = clock e (tick st)\<rparr>],
                  tick := Suc (tick st)\<rparr>))"

definition userQueries_findByEmail :: "state \<Rightarrow> string \<Rightarrow> user option" where
  "userQueries_findByEmail st email = find (\<lambda>u. u_email u = email) (users st)"

subsection \<open>sourceQueries\<close>

definition sourceQueries_create ::
  "env \<Rightarrow> state \<Rightarrow> string \<Rightarrow> string \<Rightarrow> string \<Rightarrow> string \<Rightarrow> int \<Rightarrow> int result" where
  "sourceQueries_create e st user_id name url type enabled =
     (let new_id = next_rowid (sources_seq st) (map s_id (sources st));
          row = \<lparr>s_id = new_id, s_user_id = user_id, s_name = name, s_url = url,
                 s_type = type, s_enabled = enabled, s_created_at = clock e (tick st)\<rparr>
      in case saveDatabase e
                (st\<lparr>sources := sources st @ [row], sources_seq := new_id,
                     tick := Suc (tick st)\<rparr>) of
           (Inl err, st') \<Rightarrow> (Inl err, st')
         | (Inr _, st') \<Rightarrow> (Inr (if counters_survive_export e then new_id else 0), st'))"

text \<open>\<^verbatim>\<open>ORDER BY ... DESC\<close>: rows with equal keys stay in table order.\<close>

definition order_by_desc :: "('a \<Rightarrow> 'k::linorder) \<Rightarrow> 'a list \<Rightarrow> 'a list" where
  "order_by_desc k rows = rev (sort_key k (rev rows))"

definition sourceQueries_findByUser :: "state \<Rightarrow> string \<Rightarrow> source list" where
  "sourceQueries_findByUser st user_id =
     order_by_desc s_created_at (filter (\<lambda>s. s_user_id s = user_id) (sources st))"

text \<open>The id is what \<^verbatim>\<open>parseInt\<close> gave: \<open>None\<close> is NaN, which equals no id.\<close>

definition sourceQueries_delete :: "env \<Rightarrow> state \<Rightarrow> int option \<Rightarrow> string \<Rightarrow> nat result" where
  "sourceQueries_delete e st sid user_id =
     (let hit = (\<lambda>s. Some (s_id s) = sid \<and> s_user_id s = user_id);
          n = length (filter hit (sources st))
      in case saveDatabase e
                (st\<lparr>sources := filter (\<lambda>s. \<not> hit s) (sources st), tick := Suc (tick st)\<rparr>) of
           (Inl err, st') \<Rightarrow> (Inl err, st')
         | (Inr _, st') \<Rightarrow> (Inr (if counters_survive_export e then n else 0), st'))"

subsection \<open>articleQueries\<close>

text \<open>
  The INSERT fails when title or link is undefined (NOT NULL columns), when the engine
  refuses an undefined published_at, and when the link is already in the table, whoever
  owns it (link is UNIQUE over the whole table). fetched_at takes its default. The summary
  goes through the engine's TEXT encoding.
\<close>

definition articleQueries_create ::
  "env \<Rightarrow> state \<Rightarrow> string \<Rightarrow> int \<Rightarrow> string \<Rightarrow> string option \<Rightarrow> string option \<Rightarrow> js_string \<Rightarrow>
     string option \<Rightarrow> unit result" where
  "articleQueries_create e st user_id source_id source_name title link summary published_at =
     (case (title, link) of
        (Some t, Some l) \<Rightarrow>
          if published_at = None \<and> \<not> binds_undefined_as_null e
          then (Inl Bind_failed, st\<lparr>tick := Suc (tick st)\<rparr>)
          else if l \<in> set (map a_link (articles st))
          then (Inl Constraint_failed, st\<lparr>tick := Suc (tick st)\<rparr>)
          else saveDatabase e
                 (st\<lparr>articles := articles st @
                        [\<lparr>a_id = next_rowid (articles_seq st) (map a_id (articles st)),
                          a_user_id = user_id,
                          a_source_id = source_id, a_source_name = source_name,
                          a_title = t, a_link = l, a_summary = stored_text e summary,
                          a_published_at = published_at, a_fetched_at = clock e (tick st)\<rparr>],
                      articles_seq := next_rowid (articles_seq st) (map a_id (articles st)),
                      tick := Suc (tick st)\<rparr>)
      | _ \<Rightarrow> (Inl (if binds_undefined_as_null e then Constraint_failed else Bind_failed),
              st\<lparr>tick := Suc (tick st)\<rparr>))"

definition articleQueries_findByUser :: "state \<Rightarrow> string \<Rightarrow> article list" where
  "articleQueries_findByUser st user_id =
     order_by_desc a_published_at (filter (\<lambda>a. a_user_id a = user_id) (articles st))"

definition articleQueries_countByUser :: "state \<Rightarrow> string \<Rightarrow> int" where
  "articleQueries_countByUser st user_id =
     int (length (filter (\<lambda>a. a_user_id a = user_id) (articles st)))"

text \<open>
  \<^verbatim>\<open>DELETE ... WHERE id IN (SELECT id ... ORDER BY fetched_at ASC LIMIT ?)\<close>; rows with
  equal fetched_at are taken in table order, and a negative LIMIT is no limit.
\<close>

definition oldest_ids :: "state \<Rightarrow> string \<Rightarrow> int \<Rightarrow> int list" where
  "oldest_ids st user_id limit =
     map a_id
       ((if limit < 0 then (\<lambda>rows. rows) else take (nat limit))
          (sort_key a_fetched_at (filter (\<lambda>a. a_user_id a = user_id) (articles st))))"

definition articleQueries_deleteOldest :: "env \<Rightarrow> state \<Rightarrow> string \<Rightarrow> int \<Rightarrow> unit result" where
  "articleQueries_deleteOldest e st user_id limit =
     saveDatabase e
       (st\<lparr>articles := filter (\<lambda>a. a_id a \<notin> set (oldest_ids st user_id limit)) (articles st),
           tick := Suc (tick st)\<rparr>)"

section \<open>server.js: the fetch pipeline\<close>

text \<open>\<^verbatim>\<open>content.substring(0, 150)\<close> counts UTF-16 code units.\<close>

definition summarizeArticle :: "js_string option \<Rightarrow> js_string" where
  "summarizeArticle content = (if \<not> truthy content then [] else take 150 (the content))"

text \<open>
  \<^verbatim>\<open>summarize\<close> of src/utils/ai.js. The older, file-based src/server.js calls it and keeps
  its result in the articles file; server.js, which database.js serves, calls
  \<^verbatim>\<open>summarizeArticle\<close>. The literal after the cut is, in the file as it stands, the three
  characters U+00E2, U+20AC, U+00A6 (an ellipsis that went through a wrong decoding).
\<close>

definition ellipsis :: js_string where
  "ellipsis = [0xE2, 0x20AC, 0xA6]"

definition summarize :: "js_string option \<Rightarrow> js_string" where
  "summarize text =
     (if \<not> truthy text then []
      else take 150 (the text) @ (if length (the text) > 150 then ellipsis else []))"

definition item_of :: "feed_item \<Rightarrow> item" where
  "item_of i =
     \<lparr>it_title = fi_title i, it_link = fi_link i, it_published = fi_pubDate i,
      it_content = (if truthy (fi_contentSnippet i) then the (fi_contentSnippet i)
                    else if truthy (fi_content i) then the (fi_content i) else [])\<rparr>"

definition fetchSource :: "env \<Rightarrow> state \<Rightarrow> source \<Rightarrow> error + item list" where
  "fetchSource e st src =
     (if s_type src = ''rss''
      then (case parseURL e (tick st) (s_url src) of
              Inl err \<Rightarrow> Inl err
            | Inr feed_items \<Rightarrow> Inr (map item_of feed_items))
      else Inr [])"

definition MAX_ARTICLES :: int where
  "MAX_ARTICLES = 200"

record fetch_result =
  success :: bool
  message :: string

text \<open>
  The inner loop over the items of one source. It stops at the first exception, which the
  \<^verbatim>\<open>catch\<close> around the source receives; the articles inserted before it stay.
\<close>

fun insert_items ::
  "env \<Rightarrow> string \<Rightarrow> source \<Rightarrow> item list \<Rightarrow> state \<Rightarrow> string option set \<Rightarrow> nat \<Rightarrow>
     error option \<times> state \<times> string option set \<times> nat" where
  "insert_items e userId src [] st existingLinks newCount = (None, st, existingLinks, newCount)"
| "insert_items e userId src (it # its) st existingLinks newCount =
     (if it_link it \<in> existingLinks then insert_items e userId src its st existingLinks newCount
      else
        let summary = summarizeArticle (Some (it_content it)) in
        case articleQueries_create e st userId (s_id src) (s_name src) (it_title it) (it_link it)
               summary (it_published it) of
          (Inl err, st') \<Rightarrow> (Some err, st', existingLinks, newCount)
        | (Inr _, st') \<Rightarrow>
            insert_items e userId src its st' (insert (it_link it) existingLinks) (Suc newCount))"

text \<open>The outer loop: an exception from a source is logged and the next source is taken.\<close>

fun fetch_sources ::
  "env \<Rightarrow> string \<Rightarrow> source list \<Rightarrow> state \<Rightarrow> string option set \<Rightarrow> nat \<Rightarrow>
     state \<times> string option set \<times> nat" where
  "fetch_sources e userId [] st existingLinks newCount = (st, existingLinks, newCount)"
| "fetch_sources e userId (src # srcs) st existingLinks newCount =
     (case fetchSource e st src of
        Inl err \<Rightarrow> fetch_sources e userId srcs st existingLinks newCount
      | Inr items \<Rightarrow>
          (case insert_items e userId src items st existingLinks newCount of
             (_, st', existingLinks', newCount') \<Rightarrow>
               fetch_sources e userId srcs st' existingLinks' newCount'))"

text \<open>
  The step of \<^verbatim>\<open>fetchArticles\<close> after the insertions: \<^verbatim>\<open>countByUser\<close>, and
  \<^verbatim>\<open>deleteOldest\<close> of the surplus when the count is above \<^verbatim>\<open>MAX_ARTICLES\<close>.
\<close>

definition prune :: "env \<Rightarrow> state \<Rightarrow> string \<Rightarrow> unit result" where
  "prune e st userId =
     (let total = articleQueries_countByUser st userId
      in if total > MAX_ARTICLES
         then articleQueries_deleteOldest e st userId (total - MAX_ARTICLES)
         else (Inr (), st))"

definition fetchArticles :: "env \<Rightarrow> state \<Rightarrow> string \<Rightarrow> fetch_result \<times> state" where
  "fetchArticles e st userId =
     (if isRunning st
      then (\<lparr>success = False, message = ''Fetch already in progress''\<rparr>, st)
      else
        let st1 = st\<lparr>isRunning := True\<rparr>;
            srcs = filter (\<lambda>s. s_enabled s \<noteq> 0) (sourceQueries_findByUser st1 userId);
            existingArticles = articleQueries_findByUser st1 userId;
            existingLinks = set (map (\<lambda>a. Some (a_link a)) existingArticles)
        in case fetch_sources e userId srcs st1 existingLinks 0 of
             (st2, _, newCount) \<Rightarrow>
               (case prune e st2 userId of
                  (Inl err, st3) \<Rightarrow>
                    (\<lparr>success = False, message = error_message e err\<rparr>,
                     st3\<lparr>isRunning := False\<rparr>)
                | (Inr _, st3) \<Rightarrow>
                    (\<lparr>success = True,
                      message = ''Fetched '' @ dec newCount @ '' new articles. Total: '' @
                                dec (nat (articleQueries_countByUser st3 userId))\<rparr>,
                     st3\<lparr>isRunning := False\<rparr>)))"

subsection \<open>A call of fetchArticles, piece by piece\<close>

text \<open>
  \<^verbatim>\<open>fetchArticles\<close> is an async function. A call runs up to its first \<^verbatim>\<open>await\<close> and gives
  control back; each later piece runs when the awaited promise has settled, and other
  handlers run in between. \<open>fetchArticles\<close> above is the call run in one go. Here the
  same code is cut at its two \<^verbatim>\<open>await\<close>s: a call is at its start, or waits for
  \<^verbatim>\<open>fetchSource(src)\<close> or for \<^verbatim>\<open>summarizeArticle(it.content)\<close> with the values of its local
  variables (the sources and items still to come, \<^verbatim>\<open>existingLinks\<close>, \<^verbatim>\<open>newCount\<close>), or
  has returned.
\<close>

datatype fetch_call =
    Called string
  | Awaits_fetchSource string source "source list" "string option set" nat
  | Awaits_summarizeArticle string source item "item list" "source list" "string option set" nat
  | Returned fetch_result

text \<open>The end of the function: \<^verbatim>\<open>countByUser\<close>, \<^verbatim>\<open>deleteOldest\<close>, the two returns and \<^verbatim>\<open>finally\<close>.\<close>

definition finish :: "env \<Rightarrow> state \<Rightarrow> string \<Rightarrow> nat \<Rightarrow> state \<times> fetch_call" where
  "finish e st userId newCount =
     (case prune e st userId of
        (Inl err, st3) \<Rightarrow>
          (st3\<lparr>isRunning := False\<rparr>,
           Returned \<lparr>success = False, message = error_message e err\<rparr>)
      | (Inr _, st3) \<Rightarrow>
          (st3\<lparr>isRunning := False\<rparr>,
           Returned \<lparr>success = True,
                     message = ''Fetched '' @ dec newCount @ '' new articles. Total: '' @
                               dec (nat (articleQueries_countByUser st3 userId))\<rparr>))"

text \<open>The head of the outer \<^verbatim>\<open>for\<close>: the next source is asked for its items, or the sources are through.\<close>

definition next_source ::
  "env \<Rightarrow> state \<Rightarrow> string \<Rightarrow> source list \<Rightarrow> string option set \<Rightarrow> nat \<Rightarrow> state \<times> fetch_call" where
  "next_source e st userId srcs existingLinks newCount =
     (case srcs of
        [] \<Rightarrow> finish e st userId newCount
      | src # rest \<Rightarrow> (st, Awaits_fetchSource userId src rest existingLinks newCount))"

text \<open>The head of the inner \<^verbatim>\<open>for\<close>: known links are passed over up to the next item to summarize.\<close>

fun next_item ::
  "env \<Rightarrow> state \<Rightarrow> string \<Rightarrow> source \<Rightarrow> item list \<Rightarrow> source list \<Rightarrow> string option set \<Rightarrow> nat \<Rightarrow>
     state \<times> fetch_call" where
  "next_item e st userId src [] rest existingLinks newCount =
     next_source e st userId rest existingLinks newCount"
| "next_item e st userId src (it # its) rest existingLinks newCount =
     (if it_link it \<in> existingLinks then next_item e st userId src its rest existingLinks newCount
      else (st, Awaits_summarizeArticle userId src it its rest existingLinks newCount))"

text \<open>
  One piece of a call, from where it stands to its next \<^verbatim>\<open>await\<close> or to its return, in the
  state that the process has then. A rejected \<^verbatim>\<open>fetchSource\<close> and a throwing
  \<^verbatim>\<open>articleQueries.create\<close> go to the \<^verbatim>\<open>catch\<close> of the source.
\<close>

definition resume :: "env \<Rightarrow> state \<Rightarrow> fetch_call \<Rightarrow> state \<times> fetch_call" where
  "resume e st c =
     (case c of
        Called userId \<Rightarrow>
          if isRunning st
          then (st, Returned \<lparr>success = False, message = ''Fetch already in progress''\<rparr>)
          else
            let st1 = st\<lparr>isRunning := True\<rparr>;
                srcs = filter (\<lambda>s. s_enabled s \<noteq> 0) (sourceQueries_findByUser st1 userId);
                existingArticles = articleQueries_findByUser st1 userId;
                existingLinks = set (map (\<lambda>a. Some (a_link a)) existingArticles)
            in next_source e st1 userId srcs existingLinks 0
      | Awaits_fetchSource userId src rest existingLinks newCount \<Rightarrow>
          (case fetchSource e st src of
             Inl err \<Rightarrow> next_source e st userId rest existingLinks newCount
           | Inr items \<Rightarrow> next_item e st userId src items rest existingLinks newCount)
      | Awaits_summarizeArticle userId src it its rest existingLinks newCount \<Rightarrow>
          (let summary = summarizeArticle (Some (it_content it)) in
           case articleQueries_create e st userId (s_id src) (s_name src) (it_title it)
                  (it_link it) summary (it_published it) of
             (Inl err, st') \<Rightarrow> next_source e st' userId rest existingLinks newCount
           | (Inr _, st') \<Rightarrow>
               next_item e st' userId src its rest (insert (it_link it) existingLinks)
                 (Suc newCount))
      | Returned r \<Rightarrow> (st, Returned r))"

section \<open>server.js: the routes\<close>

record session =
  sess_userId :: "string option"
  sess_email :: "string option"

datatype json =
    Error_json string
  | Success_json
  | Success_id_json int
  | Success_user_json string string
  | Sources_json "source list"
  | Articles_json "article list"
  | Fetch_json fetch_result

record response =
  res_status :: nat
  res_body :: json

definition reply :: "nat \<Rightarrow> json \<Rightarrow> response" where
  "reply code j = \<lparr>res_status = code, res_body = j\<rparr>"

definition not_authenticated :: response where
  "not_authenticated = reply 401 (Error_json ''Not authenticated'')"

text \<open>POST /api/auth/register; the body's fields are strings or absent.\<close>

definition register ::
  "env \<Rightarrow> state \<Rightarrow> session \<Rightarrow> string option \<Rightarrow> string option \<Rightarrow> response \<times> state \<times> session" where
  "register e st sess email password =
     (if \<not> truthy email \<or> \<not> truthy password
      then (reply 400 (Error_json ''Email and password required''), st, sess)
      else
        case userQueries_findByEmail st (toLowerCase e (the email)) of
          Some existing \<Rightarrow> (reply 400 (Error_json ''Email already exists''), st, sess)
        | None \<Rightarrow>
            let hashedPassword = bcrypt_hash e (the password);
                userId = new_user_id e (tick st)
            in case userQueries_create e st userId (toLowerCase e (the email)) hashedPassword of
                 (Inl err, st') \<Rightarrow> (reply 500 (Error_json ''Failed to register''), st', sess)
               | (Inr _, st') \<Rightarrow>
                   let sess' = \<lparr>sess_userId = Some userId,
                                sess_email = Some (toLowerCase e (the email))\<rparr>
                   in if session_save_ok e (tick st')
                      then (reply 200 (Success_user_json userId (toLowerCase e (the email))),
                            st', sess')
                      else (reply 500 (Error_json ''Failed to register''), st', sess'))"

text \<open>
  GET /api/sources. The SELECT queries do not throw in this model, so the \<^verbatim>\<open>catch\<close> of
  the two reading routes is not reached.
\<close>

definition get_sources :: "state \<Rightarrow> session \<Rightarrow> response" where
  "get_sources st sess =
     (if \<not> truthy (sess_userId sess) then not_authenticated
      else reply 200 (Sources_json (sourceQueries_findByUser st (the (sess_userId sess)))))"

subsection \<open>The regular expressions of POST /api/sources\<close>

datatype rx =
    Zero
  | One
  | Lit char
  | Digit
  | Range char char
  | Any
  | Seq rx rx
  | Alt rx rx
  | Plus rx
  | Star rx

record regex =
  from_start :: bool
  pattern :: rx
  to_end :: bool
  ignore_case :: bool

definition is_digit :: "char \<Rightarrow> bool" where
  "is_digit c = (CHR ''0'' \<le> c \<and> c \<le> CHR ''9'')"

fun nullable :: "rx \<Rightarrow> bool" where
  "nullable Zero = False"
| "nullable One = True"
| "nullable (Lit a) = False"
| "nullable Digit = False"
| "nullable (Range a b) = False"
| "nullable Any = False"
| "nullable (Seq r s) = (nullable r \<and> nullable s)"
| "nullable (Alt r s) = (nullable r \<or> nullable s)"
| "nullable (Plus r) = nullable r"
| "nullable (Star r) = True"

text \<open>What is left of a pattern after it has read the character \<open>c\<close>.\<close>

fun after :: "bool \<Rightarrow> char \<Rightarrow> rx \<Rightarrow> rx" where
  "after i c Zero = Zero"
| "after i c One = Zero"
| "after i c (Lit a) =
     (if (if i then lower_char c = lower_char a else c = a) then One else Zero)"
| "after i c Digit = (if is_digit c then One else Zero)"
| "after i c (Range a b) = (if a \<le> c \<and> c \<le> b then One else Zero)"
| "after i c Any = One"
| "after i c (Seq r s) =
     (if nullable r then Alt (Seq (after i c r) s) (after i c s) else Seq (after i c r) s)"
| "after i c (Alt r s) = Alt (after i c r) (after i c s)"
| "after i c (Plus r) = Seq (after i c r) (Star r)"
| "after i c (Star r) = Seq (after i c r) (Star r)"

definition matches :: "bool \<Rightarrow> rx \<Rightarrow> string \<Rightarrow> bool" where
  "matches i r s = nullable (foldl (\<lambda>q c. after i c q) r s)"

text \<open>\<^verbatim>\<open>pattern.test(s)\<close>: without \<^verbatim>\<open>^\<close> the match may start anywhere, without \<^verbatim>\<open>$\<close> end anywhere.\<close>

definition test :: "regex \<Rightarrow> string \<Rightarrow> bool" where
  "test re s =
     matches (ignore_case re)
       (Seq (if from_start re then One else Star Any)
          (Seq (pattern re) (if to_end re then One else Star Any))) s"

fun word :: "string \<Rightarrow> rx" where
  "word [] = One"
| "word (c # cs) = Seq (Lit c) (word cs)"

definition anchored :: "rx \<Rightarrow> regex" where
  "anchored r = \<lparr>from_start = True, pattern = r, to_end = True, ignore_case = False\<rparr>"

definition dot :: rx where
  "dot = Lit CHR ''.''"

definition privatePatterns :: "regex list" where
  "privatePatterns =
     [(anchored (word ''localhost''))\<lparr>ignore_case := True\<rparr>,
      anchored (Seq (word ''127'') (Seq dot (Seq (Plus Digit) (Seq dot (Seq (Plus Digit)
        (Seq dot (Plus Digit))))))),
      anchored (word ''::1''),
      anchored (Seq (word ''0'') (Seq dot (Seq (Plus Digit) (Seq dot (Seq (Plus Digit)
        (Seq dot (Plus Digit))))))),
      anchored (Seq (word ''10'') (Seq dot (Seq (Plus Digit) (Seq dot (Seq (Plus Digit)
        (Seq dot (Plus Digit))))))),
      anchored (Seq (word ''172'') (Seq dot
        (Seq (Alt (Seq (Lit CHR ''1'') (Range CHR ''6'' CHR ''9''))
               (Alt (Seq (Lit CHR ''2'') Digit)
                    (Seq (Lit CHR ''3'') (Alt (Lit CHR ''0'') (Lit CHR ''1'')))))
          (Seq dot (Seq (Plus Digit) (Seq dot (Plus Digit))))))),
      anchored (Seq (word ''192'') (Seq dot (Seq (word ''168'') (Seq dot (Seq (Plus Digit)
        (Seq dot (Plus Digit))))))),
      \<lparr>from_start = False, pattern = Seq dot (word ''local''), to_end = True,
       ignore_case = True\<rparr>,
      (anchored (Seq (word ''localhost'') (Seq dot (word ''localdomain''))))
        \<lparr>ignore_case := True\<rparr>]"

text \<open>POST /api/sources\<close>

definition post_sources ::
  "env \<Rightarrow> state \<Rightarrow> session \<Rightarrow> string option \<Rightarrow> string option \<Rightarrow> string option \<Rightarrow>
     response \<times> state" where
  "post_sources e st sess name url type =
     (if \<not> truthy (sess_userId sess) then (not_authenticated, st)
      else if \<not> truthy name \<or> \<not> truthy url \<or> \<not> truthy type
      then (reply 400 (Error_json ''Missing required fields''), st)
      else
        case new_URL e (the url) of
          None \<Rightarrow> (reply 400 (Error_json ''Invalid URL format''), st)
        | Some parsedUrl \<Rightarrow>
            if protocol parsedUrl \<notin> set [''http:'', ''https:'']
            then (reply 400 (Error_json ''URL must use HTTP or HTTPS''), st)
            else if list_ex (\<lambda>p. test p (toLowerCase e (hostname parsedUrl))) privatePatterns
            then (reply 400 (Error_json ''Private/local URLs are not allowed''), st)
            else
              case sourceQueries_create e st (the (sess_userId sess)) (the name) (the url)
                     (the type) 1 of
                (Inl err, st') \<Rightarrow> (reply 500 (Error_json ''Failed to add source''), st')
              | (Inr new_id, st') \<Rightarrow> (reply 200 (Success_id_json new_id), st'))"

text \<open>DELETE /api/sources/:id\<close>

definition delete_source :: "env \<Rightarrow> state \<Rightarrow> session \<Rightarrow> string \<Rightarrow> response \<times> state" where
  "delete_source e st sess id_param =
     (if \<not> truthy (sess_userId sess) then (not_authenticated, st)
      else
        case sourceQueries_delete e st (parseInt e id_param) (the (sess_userId sess)) of
          (Inl err, st') \<Rightarrow> (reply 500 (Error_json ''Failed to delete source''), st')
        | (Inr changes, st') \<Rightarrow>
            if changes = 0 then (reply 404 (Error_json ''Source not found''), st')
            else (reply 200 Success_json, st'))"

text \<open>GET /api/feed\<close>

definition get_feed :: "state \<Rightarrow> session \<Rightarrow> response" where
  "get_feed st sess =
     (if \<not> truthy (sess_userId sess) then not_authenticated
      else reply 200 (Articles_json (articleQueries_findByUser st (the (sess_userId sess)))))"

text \<open>POST /api/fetch\<close>

definition post_fetch :: "env \<Rightarrow> state \<Rightarrow> session \<Rightarrow> response \<times> state" where
  "post_fetch e st sess =
     (if \<not> truthy (sess_userId sess) then (not_authenticated, st)
      else case fetchArticles e st (the (sess_userId sess)) of
             (result, st') \<Rightarrow> (reply 200 (Fetch_json result), st'))"

section \<open>Notions used in the statements\<close>

text \<open>The article that the loop stores for an item of a source.\<close>

definition made_from :: "env \<Rightarrow> string \<Rightarrow> source \<Rightarrow> item \<Rightarrow> article \<Rightarrow> bool" where
  "made_from e u src it a \<longleftrightarrow>
     a_user_id a = u \<and> a_source_id a = s_id src \<and> a_source_name a = s_name src \<and>
     it_title it = Some (a_title a) \<and> it_link it = Some (a_link a) \<and>
     a_summary a = stored_text e (take 150 (it_content it)) \<and> a_published_at a = it_published it"

text \<open>The article was stored for an entry that the parser delivered for this source.\<close>

definition from_feed :: "env \<Rightarrow> string \<Rightarrow> source \<Rightarrow> article \<Rightarrow> bool" where
  "from_feed e u src a \<longleftrightarrow>
     s_type src = ''rss'' \<and>
     (\<exists>t feed_items. parseURL e t (s_url src) = Inr feed_items \<and>
        (\<exists>i\<in>set feed_items. made_from e u src (item_of i) a))"

text \<open>The sources that \<^verbatim>\<open>fetchArticles\<close> goes through, and the state when it has gone through them.\<close>

definition enabled_sources :: "state \<Rightarrow> string \<Rightarrow> source list" where
  "enabled_sources st u = filter (\<lambda>s. s_enabled s \<noteq> 0) (sourceQueries_findByUser st u)"

definition after_insertions :: "env \<Rightarrow> state \<Rightarrow> string \<Rightarrow> state" where
  "after_insertions e st u =
     fst (fetch_sources e u (enabled_sources (st\<lparr>isRunning := True\<rparr>) u) (st\<lparr>isRunning := True\<rparr>)
            (set (map (\<lambda>a. Some (a_link a)) (articleQueries_findByUser (st\<lparr>isRunning := True\<rparr>) u))) 0)"

text \<open>The states that the routes can reach from the empty database.\<close>

definition initial_state :: state where
  "initial_state =
     \<lparr>users = [], sources = [], articles = [], sources_seq = 0, articles_seq = 0,
      isRunning = False, tick = 0\<rparr>"

inductive reachable :: "env \<Rightarrow> state \<Rightarrow> bool" for e :: env where
  started: "reachable e initial_state"
| registered: "reachable e st \<Longrightarrow> reachable e (fst (snd (register e st sess email password)))"
| source_added: "reachable e st \<Longrightarrow> reachable e (snd (post_sources e st sess name url type))"
| source_deleted: "reachable e st \<Longrightarrow> reachable e (snd (delete_source e st sess id_param))"
| fetched: "reachable e st \<Longrightarrow> reachable e (snd (post_fetch e st sess))"

text \<open>The stored emails are lowercase and pairwise different.\<close>

definition emails_ok :: "env \<Rightarrow> state \<Rightarrow> bool" where
  "emails_ok e st \<longleftrightarrow>
     distinct (map u_email (users st)) \<and>
     (\<forall>x\<in>set (users st). toLowerCase e (u_email x) = u_email x)"

text \<open>A call that has started and not returned: it waits at an \<^verbatim>\<open>await\<close>.\<close>

fun in_flight :: "fetch_call \<Rightarrow> bool" where
  "in_flight (Called userId) = False"
| "in_flight (Awaits_fetchSource userId src rest existingLinks newCount) = True"
| "in_flight (Awaits_summarizeArticle userId src it its rest existingLinks newCount) = True"
| "in_flight (Returned r) = False"

text \<open>
  The process: the state and the calls of \<^verbatim>\<open>fetchArticles\<close> made so far. It starts with the
  flag clear and no call. A new call, for any user, runs its first piece at once, and any
  waiting call may be the next to go on by one piece. In between, the other handlers may
  change the database in any way; none of them assigns \<^verbatim>\<open>isRunning\<close>, a variable of the
  module that only \<^verbatim>\<open>fetchArticles\<close> mentions. Every \<^verbatim>\<open>await\<close> is taken as a point where
  the others may run; the event loop lets them in at no other point, so the process
  described here can do whatever the real one can.
\<close>

inductive running :: "env \<Rightarrow> state \<times> fetch_call list \<Rightarrow> bool" for e :: env where
  booted: "\<not> isRunning st \<Longrightarrow> running e (st, [])"
| called: "running e (st, cs) \<Longrightarrow>
     running e (fst (resume e st (Called userId)), cs @ [snd (resume e st (Called userId))])"
| resumed: "running e (st, cs) \<Longrightarrow> n < length cs \<Longrightarrow>
     running e (fst (resume e st (cs ! n)), cs[n := snd (resume e st (cs ! n))])"
| between: "running e (st, cs) \<Longrightarrow> isRunning st' = isRunning st \<Longrightarrow> running e (st', cs)"

text \<open>A call that goes on piece by piece with nothing in between, up to some later point.\<close>

inductive goes_on :: "env \<Rightarrow> state \<times> fetch_call \<Rightarrow> state \<times> fetch_call \<Rightarrow> bool" for e :: env where
  here: "goes_on e sc sc"
| piece: "goes_on e (resume e st c) sc \<Longrightarrow> goes_on e (st, c) sc"

text \<open>
  After a piece of a call: the flag is set and the call waits, or the flag is clear and the
  call has returned.
\<close>

definition guarded :: "state \<times> fetch_call \<Rightarrow> bool" where
  "guarded sc \<longleftrightarrow> (if isRunning (fst sc) then in_flight (snd sc) else (\<exists>r. snd sc = Returned r))"

text \<open>
  Of the calls made so far, one is in flight when the flag is set and none when it is
  clear, and the others have returned.
\<close>

definition guard_holds :: "state \<times> fetch_call list \<Rightarrow> bool" where
  "guard_holds scs \<longleftrightarrow>
     length (filter in_flight (snd scs)) = (if isRunning (fst scs) then 1 else 0) \<and>
     (\<forall>c\<in>set (snd scs). in_flight c \<or> (\<exists>r. c = Returned r))"

text \<open>The rows that the pruning after the insertions takes away.\<close>

definition pruned_rows :: "state \<Rightarrow> string \<Rightarrow> article list" where
  "pruned_rows st u =
     take (nat (articleQueries_countByUser st u - MAX_ARTICLES))
       (sort_key a_fetched_at (filter (\<lambda>a. a_user_id a = u) (articles st)))"

text \<open>The strings that a pattern matches as a whole, for reasoning about \<open>matches\<close>.\<close>

inductive_set star :: "string set \<Rightarrow> string set" for A :: "string set" where
  empty: "[] \<in> star A"
| more: "u \<in> A \<Longrightarrow> v \<in> star A \<Longrightarrow> u @ v \<in> star A"

fun lang :: "bool \<Rightarrow> rx \<Rightarrow> string set" where
  "lang i Zero = {}"
| "lang i One = {[]}"
| "lang i (Lit a) = {[c] |c. if i then lower_char c = lower_char a else c = a}"
| "lang i Digit = {[c] |c. is_digit c}"
| "lang i (Range a b) = {[c] |c. a \<le> c \<and> c \<le> b}"
| "lang i Any = {[c] |c. True}"
| "lang i (Seq r s) = {u @ v |u v. u \<in> lang i r \<and> v \<in> lang i s}"
| "lang i (Alt r s) = lang i r \<union> lang i s"
| "lang i (Plus r) = {u @ v |u v. u \<in> lang i r \<and> v \<in> star (lang i r)}"
| "lang i (Star r) = star (lang i r)"

text \<open>A nonempty run of decimal digits.\<close>

definition digits :: "string \<Rightarrow> bool" where
  "digits s \<longleftrightarrow> s \<noteq> [] \<and> list_all is_digit s"

text \<open>Groups joined by dots.\<close>

fun dotted :: "string list \<Rightarrow> string" where
  "dotted [] = []"
| "dotted [x] = x"
| "dotted (x # y # ys) = x @ ''.'' @ dotted (y # ys)"

text \<open>
  The hostnames that the patterns for IPv4 addresses and for names reject, pattern by
  pattern; the three patterns with the \<^verbatim>\<open>i\<close> flag take either case of an ASCII letter.
\<close>

definition blocked_host :: "string \<Rightarrow> bool" where
  "blocked_host h \<longleftrightarrow>
     map lower_char h = ''localhost'' \<or>
     (\<exists>b c d. h = dotted [''127'', b, c, d] \<and> digits b \<and> digits c \<and> digits d) \<or>
     (\<exists>b c d. h = dotted [''0'', b, c, d] \<and> digits b \<and> digits c \<and> digits d) \<or>
     (\<exists>b c d. h = dotted [''10'', b, c, d] \<and> digits b \<and> digits c \<and> digits d) \<or>
     (\<exists>b c d. h = dotted [''172'', b, c, d] \<and>
        b \<in> set [''16'', ''17'', ''18'', ''19'', ''20'', ''21'', ''22'', ''23'', ''24'', ''25'',
                  ''26'', ''27'', ''28'', ''29'', ''30'', ''31''] \<and>
        digits c \<and> digits d) \<or>
     (\<exists>c d. h = dotted [''192'', ''168'', c, d] \<and> digits c \<and> digits d) \<or>
     (\<exists>p q. h = p @ q \<and> map lower_char q = ''.local'') \<or>
     map lower_char h = ''localhost.localdomain''"

text \<open>
  The IPv6 loopback address, bare and in the brackets in which \<^verbatim>\<open>URL.hostname\<close> gives an
  IPv6 host. The list has the pattern \<^verbatim>\<open>/^::1$/\<close> for the bare form.
\<close>

definition ipv6_loopback :: "string \<Rightarrow> bool" where
  "ipv6_loopback h \<longleftrightarrow> h = ''::1'' \<or> h = ''[::1]''"

text \<open>The row that POST /api/sources inserts.\<close>

definition new_source :: "env \<Rightarrow> state \<Rightarrow> string \<Rightarrow> string \<Rightarrow> string \<Rightarrow> string \<Rightarrow> source" where
  "new_source e st u name url type =
     \<lparr>s_id = next_rowid (sources_seq st) (map s_id (sources st)), s_user_id = u, s_name = name,
      s_url = url, s_type = type, s_enabled = 1, s_created_at = clock e (tick st)\<rparr>"

section \<open>Example data\<close>

definition demo_feed :: "feed_item list" where
  "demo_feed =
     [\<lparr>fi_title = Some ''First'', fi_link = Some ''https://news.example/1'',
       fi_pubDate = Some ''Mon, 02 Nov 2026 10:00:00 GMT'',
       fi_contentSnippet = Some (replicate 200 0x78), fi_content = None\<rparr>,
      \<lparr>fi_title = Some ''Second'', fi_link = Some ''https://news.example/2'',
       fi_pubDate = Some ''Tue, 03 Nov 2026 09:00:00 GMT'',
       fi_contentSnippet = None, fi_content = None\<rparr>]"

text \<open>
  A lowercasing for the examples: the ASCII letters, and the code unit 0xC9 (a capital E
  with acute accent) to 0xE9.
\<close>

definition demo_toLowerCase :: "string \<Rightarrow> string" where
  "demo_toLowerCase s = map (\<lambda>c. if c = CHR 0xC9 then CHR 0xE9 else lower_char c) s"

definition demo_env :: env where
  "demo_env =
     \<lparr>parseURL = (\<lambda>t url. if url = ''https://news.example/rss'' then Inr demo_feed
                           else Inl Feed_failed),
      clock = (\<lambda>t. ''2026-11-03 10:00:00''),
      disk_ok = (\<lambda>t. True),
      error_message = (\<lambda>err. ''failed''),
      new_user_id = (\<lambda>t. ''carol''),
      bcrypt_hash = (\<lambda>p. ''hash of '' @ p),
      new_URL = (\<lambda>url. None),
      parseInt = (\<lambda>s. None),
      session_save_ok = (\<lambda>t. True),
      toLowerCase = demo_toLowerCase,
      stored_text = (\<lambda>s. s),
      binds_undefined_as_null = False,
      counters_survive_export = False\<rparr>"

definition demo_source :: source where
  "demo_source =
     \<lparr>s_id = 1, s_user_id = ''bob'', s_name = ''News'', s_url = ''https://news.example/rss'',
      s_type = ''rss'', s_enabled = 1, s_created_at = ''2026-11-01 08:00:00''\<rparr>"

definition demo_state :: state where
  "demo_state =
     \<lparr>users = [\<lparr>u_id = ''alice'', u_email = ''alice@example.org'', u_password = ''hash of a'',
                u_created_at = ''2026-10-01 08:00:00''\<rparr>,
               \<lparr>u_id = ''bob'', u_email = ''bob@example.org'', u_password = ''hash of b'',
                u_created_at = ''2026-10-02 08:00:00''\<rparr>],
      sources = [demo_source],
      articles = [],
      sources_seq = 1,
      articles_seq = 0,
      isRunning = False,
      tick = 0\<rparr>"

definition demo_article :: "nat \<Rightarrow> article" where
  "demo_article n =
     \<lparr>a_id = int n + 1, a_user_id = ''bob'', a_source_id = 1, a_source_name = ''News'',
      a_title = ''Old'', a_link = ''https://news.example/old/'' @ dec n, a_summary = [],
      a_published_at = None,
      a_fetched_at = (if n = 0 then ''2026-10-01 00:00:00'' else ''2026-10-02 00:00:00'')\<rparr>"

definition demo_full :: state where
  "demo_full = demo_state\<lparr>sources := [], articles := map demo_article [0..<201]\<rparr>"

definition demo_session :: session where
  "demo_session = \<lparr>sess_userId = Some ''bob'', sess_email = Some ''bob@example.org''\<rparr>"

text \<open>Two states that differ in the rows of other users only.\<close>

definition demo_other :: state where
  "demo_other =
     demo_state\<lparr>sources := [demo_source\<lparr>s_id := 7, s_user_id := ''alice''\<rparr>, demo_source],
       articles := [demo_article 0, (demo_article 1)\<lparr>a_user_id := ''alice''\<rparr>, demo_article 2]\<rparr>"

definition demo_other' :: state where
  "demo_other' =
     demo_state\<lparr>sources := [demo_source],
       articles := [(demo_article 5)\<lparr>a_user_id := ''alice''\<rparr>, demo_article 0, demo_article 2,
                    (demo_article 6)\<lparr>a_user_id := ''carol''\<rparr>]\<rparr>"

definition demo_dated :: state where
  "demo_dated =
     demo_state\<lparr>articles :=
       [(demo_article 0)\<lparr>a_published_at := Some ''2026-11-01T08:00:00Z''\<rparr>,
        demo_article 1,
        (demo_article 2)\<lparr>a_published_at := Some ''2026-11-02T08:00:00Z''\<rparr>]\<rparr>"

definition demo_two :: state where
  "demo_two =
     demo_state\<lparr>sources := [demo_source, demo_source\<lparr>s_id := 7, s_user_id := ''alice''\<rparr>,
                             demo_source\<lparr>s_id := 8, s_name := ''More''\<rparr>],
                sources_seq := 8\<rparr>"

definition demo_parseInt :: "string \<Rightarrow> int option" where
  "demo_parseInt s = (if s = ''1'' then Some 1 else if s = ''7'' then Some 7 else None)"

definition demo_registered :: state where
  "demo_registered =
     fst (snd (register demo_env initial_state \<lparr>sess_userId = None, sess_email = None\<rparr>
       (Some (CHR 0xC9 # ''va@Example.ORG'')) (Some ''secret'')))"

text \<open>The call for bob in the example state, after its first piece.\<close>

definition demo_waiting :: fetch_call where
  "demo_waiting = Awaits_fetchSource ''bob'' demo_source [] {} 0"

text \<open>A full table, a source that is no RSS feed, and a disk that cannot be written.\<close>

definition demo_full_atom :: state where
  "demo_full_atom = demo_full\<lparr>sources := [demo_source\<lparr>s_type := ''atom''\<rparr>]\<rparr>"

definition demo_env_disk_full :: env where
  "demo_env_disk_full = demo_env\<lparr>disk_ok := (\<lambda>t. False)\<rparr>"

definition demo_full_waiting :: fetch_call where
  "demo_full_waiting =
     Awaits_fetchSource ''bob'' (demo_source\<lparr>s_type := ''atom''\<rparr>) []
       (set (map (\<lambda>a. Some (a_link a)) (articles demo_full))) 0"

text \<open>The example state with that source, and the call for bob in it after its first piece.\<close>

definition demo_atom :: state where
  "demo_atom = demo_state\<lparr>sources := [demo_source\<lparr>s_type := ''atom''\<rparr>]\<rparr>"

definition demo_atom_waiting :: fetch_call where
  "demo_atom_waiting = Awaits_fetchSource ''bob'' (demo_source\<lparr>s_type := ''atom''\<rparr>) [] {} 0"

text \<open>A sources table with a source of another user and a disabled one, and a parser that answers for them with a thousand entries.\<close>

definition demo_mixed :: state where
  "demo_mixed =
     demo_state\<lparr>sources :=
       [demo_source\<lparr>s_id := 7, s_user_id := ''alice'', s_url := ''https://other.example/rss''\<rparr>,
        demo_source,
        demo_source\<lparr>s_id := 8, s_enabled := 0, s_url := ''https://off.example/rss''\<rparr>]\<rparr>"

definition demo_flood :: "nat \<Rightarrow> string \<Rightarrow> error + feed_item list" where
  "demo_flood t url =
     (if url = ''https://news.example/rss'' then Inr demo_feed
      else Inr (map (\<lambda>n. \<lparr>fi_title = Some ''Spam'', fi_link = Some (''https://spam.example/'' @ dec n),
                            fi_pubDate = None, fi_contentSnippet = None, fi_content = None\<rparr>)
                  [0..<1000]))"

text \<open>What \<^verbatim>\<open>new URL\<close> returns for some URLs.\<close>

definition demo_new_URL :: "string \<Rightarrow> parsed_url option" where
  "demo_new_URL url =
     (if url = ''https://News.Example/rss''
      then Some \<lparr>protocol = ''https:'', hostname = ''news.example''\<rparr>
      else if url = ''http://10.0.0.5/feed''
      then Some \<lparr>protocol = ''http:'', hostname = ''10.0.0.5''\<rparr>
      else if url = ''ftp://files.example/rss''
      then Some \<lparr>protocol = ''ftp:'', hostname = ''files.example''\<rparr>
      else if url = ''http://169.254.169.254/latest/meta-data''
      then Some \<lparr>protocol = ''http:'', hostname = ''169.254.169.254''\<rparr>
      else None)"

definition demo_url_env :: env where
  "demo_url_env = demo_env\<lparr>new_URL := demo_new_URL\<rparr>"

text \<open>The link of the first entry of the example feed is stored for alice already.\<close>

definition demo_shared :: state where
  "demo_shared =
     demo_state\<lparr>articles :=
       [\<lparr>a_id = 1, a_user_id = ''alice'', a_source_id = 7, a_source_name = ''News'',
         a_title = ''First'', a_link = ''https://news.example/1'', a_summary = [],
         a_published_at = Some ''Mon, 02 Nov 2026 10:00:00 GMT'',
         a_fetched_at = ''2026-11-02 12:00:00''\<rparr>],
       articles_seq := 1\<rparr>"

section \<open>Properties\<close>

lemma summarizeArticle_Some: "summarizeArticle (Some c) = take 150 c"
  by (simp add: summarizeArticle_def truthy_def)

lemma item_of_sel [simp]:
  "it_title (item_of i) = fi_title i"
  "it_link (item_of i) = fi_link i"
  "it_published (item_of i) = fi_pubDate i"
  by (simp_all add: item_of_def)

subsection \<open>Frame and shape of a fetch\<close>

lemma saveDatabase_frame [simp]:
  "users (snd (saveDatabase e st)) = users st"
  "sources (snd (saveDatabase e st)) = sources st"
  "articles (snd (saveDatabase e st)) = articles st"
  "sources_seq (snd (saveDatabase e st)) = sources_seq st"
  "articles_seq (snd (saveDatabase e st)) = articles_seq st"
  "isRunning (snd (saveDatabase e st)) = isRunning st"
  "tick (snd (saveDatabase e st)) = Suc (tick st)"
  by (simp_all add: saveDatabase_def)

lemma create_frame [simp]:
  "users (snd (articleQueries_create e st u sid sn t l sm p)) = users st"
  "sources (snd (articleQueries_create e st u sid sn t l sm p)) = sources st"
  "sources_seq (snd (articleQueries_create e st u sid sn t l sm p)) = sources_seq st"
  "isRunning (snd (articleQueries_create e st u sid sn t l sm p)) = isRunning st"
  by (simp_all add: articleQueries_create_def split: option.splits)

lemma create_articles:
  "articles (snd (articleQueries_create e st u sid sn t l sm p)) = articles st \<or>
   (\<exists>a. articles (snd (articleQueries_create e st u sid sn t l sm p)) = articles st @ [a] \<and>
        a_user_id a = u \<and> a_source_id a = sid \<and> a_source_name a = sn \<and> t = Some (a_title a) \<and>
        l = Some (a_link a) \<and> a_summary a = stored_text e sm \<and> a_published_at a = p \<and>
        a_link a \<notin> set (map a_link (articles st)) \<and>
        a_id a = next_rowid (articles_seq st) (map a_id (articles st)))"
  by (simp add: articleQueries_create_def split: option.splits)

lemma insert_items_articles:
  "insert_items e u src its st L n = (r, st', L', n') \<Longrightarrow>
   \<exists>new. articles st' = articles st @ new \<and> (\<forall>a\<in>set new. \<exists>it\<in>set its. made_from e u src it a)"
proof (induction its arbitrary: st L n)
  case Nil
  then show ?case by simp
next
  case (Cons it its)
  show ?case
  proof (cases "it_link it \<in> L")
    case True
    with Cons.prems have "insert_items e u src its st L n = (r, st', L', n')" by simp
    from Cons.IH[OF this] show ?thesis by auto
  next
    case False
    let ?c = "articleQueries_create e st u (s_id src) (s_name src) (it_title it) (it_link it)
               (summarizeArticle (Some (it_content it))) (it_published it)"
    obtain res st1 where c: "?c = (res, st1)" by (cases ?c)
    from create_articles[of e st u "s_id src" "s_name src" "it_title it" "it_link it"
        "summarizeArticle (Some (it_content it))" "it_published it"] c
    have one: "articles st1 = articles st \<or> (\<exists>a. articles st1 = articles st @ [a] \<and> made_from e u src it a)"
      by (auto simp: made_from_def summarizeArticle_Some)
    show ?thesis
    proof (cases res)
      case (Inl err)
      with Cons.prems False c have "st' = st1" by simp
      with one show ?thesis by auto
    next
      case (Inr x)
      with Cons.prems False c
      have "insert_items e u src its st1 (insert (it_link it) L) (Suc n) = (r, st', L', n')" by simp
      from Cons.IH[OF this] obtain new where
        n: "articles st' = articles st1 @ new" "\<forall>a\<in>set new. \<exists>it\<in>set its. made_from e u src it a" by blast
      from one n show ?thesis by auto
    qed
  qed
qed

lemma insert_items_frame [simp]:
  "users (fst (snd (insert_items e u src its st L n))) = users st"
  "sources (fst (snd (insert_items e u src its st L n))) = sources st"
  "sources_seq (fst (snd (insert_items e u src its st L n))) = sources_seq st"
  "isRunning (fst (snd (insert_items e u src its st L n))) = isRunning st"
  by (induction its arbitrary: st L n; simp split: prod.splits sum.splits;
      metis create_frame snd_conv)+

lemma fetch_sources_frame [simp]:
  "users (fst (fetch_sources e u srcs st L n)) = users st"
  "sources (fst (fetch_sources e u srcs st L n)) = sources st"
  "sources_seq (fst (fetch_sources e u srcs st L n)) = sources_seq st"
  "isRunning (fst (fetch_sources e u srcs st L n)) = isRunning st"
  by (induction srcs arbitrary: st L n; simp split: prod.splits sum.splits;
      metis insert_items_frame fst_conv snd_conv)+

lemma fetchSource_Inr:
  "fetchSource e st src = Inr items \<Longrightarrow>
   items = [] \<or> (s_type src = ''rss'' \<and>
     (\<exists>feed_items. parseURL e (tick st) (s_url src) = Inr feed_items \<and> items = map item_of feed_items))"
  by (auto simp: fetchSource_def split: if_splits sum.splits)

lemma fetch_sources_articles:
  "fetch_sources e u srcs st L n = (st', L', n') \<Longrightarrow>
   \<exists>new. articles st' = articles st @ new \<and> (\<forall>a\<in>set new. \<exists>src\<in>set srcs. from_feed e u src a)"
proof (induction srcs arbitrary: st L n)
  case Nil
  then show ?case by simp
next
  case (Cons src srcs)
  show ?case
  proof (cases "fetchSource e st src")
    case (Inl err)
    with Cons.prems have "fetch_sources e u srcs st L n = (st', L', n')" by simp
    from Cons.IH[OF this] show ?thesis by auto
  next
    case (Inr items)
    obtain r st1 L1 n1 where ii: "insert_items e u src items st L n = (r, st1, L1, n1)"
      by (cases "insert_items e u src items st L n") auto
    from insert_items_articles[OF ii] obtain new1 where
      n1: "articles st1 = articles st @ new1" "\<forall>a\<in>set new1. \<exists>it\<in>set items. made_from e u src it a"
      by blast
    have ff: "\<forall>a\<in>set new1. from_feed e u src a"
    proof
      fix a assume a: "a \<in> set new1"
      with n1 obtain it where it: "it \<in> set items" "made_from e u src it a" by blast
      from fetchSource_Inr[OF Inr] it(1) obtain feed_items where
        "s_type src = ''rss''" "parseURL e (tick st) (s_url src) = Inr feed_items"
        "items = map item_of feed_items" by auto
      with it show "from_feed e u src a" unfolding from_feed_def by auto
    qed
    from Cons.prems Inr ii have "fetch_sources e u srcs st1 L1 n1 = (st', L', n')" by simp
    from Cons.IH[OF this] obtain new2 where
      n2: "articles st' = articles st1 @ new2" "\<forall>a\<in>set new2. \<exists>src\<in>set srcs. from_feed e u src a"
      by blast
    from n1 n2 ff show ?thesis by auto
  qed
qed

lemma fetchArticles_busy: "isRunning st \<Longrightarrow> fetchArticles e st u = (\<lparr>success = False, message = ''Fetch already in progress''\<rparr>, st)"
  by (simp add: fetchArticles_def)

lemma fetchArticles_state:
  "\<not> isRunning st \<Longrightarrow>
   snd (fetchArticles e st u) = (snd (prune e (after_insertions e st u) u))\<lparr>isRunning := False\<rparr>"
  by (simp add: fetchArticles_def after_insertions_def enabled_sources_def Let_def
      split: prod.splits sum.splits)

lemma prune_articles:
  "articles (snd (prune e st u)) =
     (if articleQueries_countByUser st u > MAX_ARTICLES
      then filter (\<lambda>a. a_id a \<notin> set (oldest_ids st u (articleQueries_countByUser st u - MAX_ARTICLES)))
             (articles st)
      else articles st)"
  by (simp add: prune_def articleQueries_deleteOldest_def Let_def)

lemma prune_subset: "set (articles (snd (prune e st u))) \<subseteq> set (articles st)"
  by (auto simp: prune_articles)

lemma order_by_desc_set [simp]: "set (order_by_desc k xs) = set xs"
  by (simp add: order_by_desc_def)

lemma enabled_sources_subset:
  "src \<in> set (enabled_sources st u) \<Longrightarrow>
   src \<in> set (sources st) \<and> s_user_id src = u \<and> s_enabled src \<noteq> 0"
  by (auto simp: enabled_sources_def sourceQueries_findByUser_def)

lemma after_insertions_articles:
  "\<exists>new. articles (after_insertions e st u) = articles st @ new \<and>
     (\<forall>a\<in>set new. \<exists>src\<in>set (sources st). s_user_id src = u \<and> s_enabled src \<noteq> 0 \<and> from_feed e u src a)"
proof -
  let ?st1 = "st\<lparr>isRunning := True\<rparr>"
  let ?f = "fetch_sources e u (enabled_sources ?st1 u) ?st1
            (set (map (\<lambda>a. Some (a_link a)) (articleQueries_findByUser ?st1 u))) 0"
  obtain st' L' n' where f: "?f = (st', L', n')" by (cases ?f)
  from fetch_sources_articles[OF f] obtain new where
    n: "articles st' = articles st @ new" "\<forall>a\<in>set new. \<exists>src\<in>set (enabled_sources ?st1 u). from_feed e u src a"
    by auto
  have "\<forall>a\<in>set new. \<exists>src\<in>set (sources st). s_user_id src = u \<and> s_enabled src \<noteq> 0 \<and> from_feed e u src a"
  proof
    fix a assume "a \<in> set new"
    with n obtain src where s: "src \<in> set (enabled_sources ?st1 u)" "from_feed e u src a" by blast
    from enabled_sources_subset[OF s(1)] s(2)
    show "\<exists>src\<in>set (sources st). s_user_id src = u \<and> s_enabled src \<noteq> 0 \<and> from_feed e u src a"
      by auto
  qed
  with n f show ?thesis by (auto simp: after_insertions_def)
qed

lemma fetchArticles_new_articles:
  assumes "a \<in> set (articles (snd (fetchArticles e st u)))" "a \<notin> set (articles st)"
  shows "\<exists>src\<in>set (sources st). s_user_id src = u \<and> s_enabled src \<noteq> 0 \<and> from_feed e u src a"
proof (cases "isRunning st")
  case True
  with assms show ?thesis by (simp add: fetchArticles_busy)
next
  case False
  from assms(1) have "a \<in> set (articles (snd (prune e (after_insertions e st u) u)))"
    by (simp add: fetchArticles_state[OF False])
  with prune_subset have "a \<in> set (articles (after_insertions e st u))" by blast
  with after_insertions_articles[of e st u] assms(2) show ?thesis by auto
qed

subsection \<open>Summaries\<close>

lemma demo_run:
  "articles (snd (fetchArticles demo_env demo_state ''bob'')) =
     [\<lparr>a_id = 1, a_user_id = ''bob'', a_source_id = 1, a_source_name = ''News'',
       a_title = ''First'', a_link = ''https://news.example/1'',
       a_summary = replicate 150 0x78,
       a_published_at = Some ''Mon, 02 Nov 2026 10:00:00 GMT'',
       a_fetched_at = ''2026-11-03 10:00:00''\<rparr>,
      \<lparr>a_id = 2, a_user_id = ''bob'', a_source_id = 1, a_source_name = ''News'',
       a_title = ''Second'', a_link = ''https://news.example/2'',
       a_summary = [],
       a_published_at = Some ''Tue, 03 Nov 2026 09:00:00 GMT'',
       a_fetched_at = ''2026-11-03 10:00:00''\<rparr>]"
  by (simp add: fetchArticles_def demo_state_def demo_env_def demo_source_def demo_feed_def
      sourceQueries_findByUser_def articleQueries_findByUser_def order_by_desc_def
      fetchSource_def item_of_def truthy_def summarizeArticle_def articleQueries_create_def
      saveDatabase_def next_rowid_def prune_def articleQueries_countByUser_def MAX_ARTICLES_def)

text \<open>
  C5, as amended: \<^verbatim>\<open>summarizeArticle\<close> returns the first 150 UTF-16 code units of the
  content: the whole content when it is shorter, never more than 150 units, and the empty
  string when the content is empty or missing (an entry without contentSnippet and content
  gets the empty content). Every article that a fetch adds to the table was stored for an
  entry of a feed, and its summary is what the database gives back for that cut of the
  entry's content: the cut itself, whenever the database gives the cut back as it was
  bound. \<^verbatim>\<open>summarize\<close> of ai.js returns the same cut, followed by its ellipsis literal when
  the content is longer than 150 units.
\<close>

theorem C5_summary_is_cut_at_150:
  "summarizeArticle None = [] \<and>
   summarizeArticle (Some []) = [] \<and>
   summarizeArticle (Some c) = take 150 c \<and>
   length (summarizeArticle x) \<le> 150 \<and>
   it_content (item_of (i\<lparr>fi_contentSnippet := None, fi_content := None\<rparr>)) = [] \<and>
   summarize None = [] \<and>
   summarize (Some []) = [] \<and>
   summarize (Some c) = take 150 c @ (if length c > 150 then ellipsis else []) \<and>
   (\<forall>a\<in>set (articles (snd (fetchArticles e st u))).
      a \<in> set (articles st) \<or>
      (\<exists>src\<in>set (sources st). \<exists>t feed_items.
         parseURL e t (s_url src) = Inr feed_items \<and>
         (\<exists>j\<in>set feed_items.
            fi_link j = Some (a_link a) \<and>
            a_summary a = stored_text e (summarizeArticle (Some (it_content (item_of j)))) \<and>
            (stored_text e (take 150 (it_content (item_of j))) = take 150 (it_content (item_of j))
               \<longrightarrow> a_summary a = take 150 (it_content (item_of j)) \<and>
                   length (a_summary a) \<le> 150))))"
proof -
  have "length (summarizeArticle x) \<le> 150"
    by (simp add: summarizeArticle_def)
  moreover have "a \<in> set (articles st) \<or>
      (\<exists>src\<in>set (sources st). \<exists>t feed_items.
         parseURL e t (s_url src) = Inr feed_items \<and>
         (\<exists>j\<in>set feed_items.
            fi_link j = Some (a_link a) \<and>
            a_summary a = stored_text e (summarizeArticle (Some (it_content (item_of j)))) \<and>
            (stored_text e (take 150 (it_content (item_of j))) = take 150 (it_content (item_of j))
               \<longrightarrow> a_summary a = take 150 (it_content (item_of j)) \<and>
                   length (a_summary a) \<le> 150)))"
    if a: "a \<in> set (articles (snd (fetchArticles e st u)))" for a
  proof (cases "a \<in> set (articles st)")
    case True
    then show ?thesis by simp
  next
    case False
    from fetchArticles_new_articles[OF a False] obtain src t feed_items j where
      j: "src \<in> set (sources st)" "parseURL e t (s_url src) = Inr feed_items"
      "j \<in> set feed_items" "made_from e u src (item_of j) a"
      unfolding from_feed_def by blast
    from j(4) have "fi_link j = Some (a_link a) \<and>
        a_summary a = stored_text e (summarizeArticle (Some (it_content (item_of j)))) \<and>
        (stored_text e (take 150 (it_content (item_of j))) = take 150 (it_content (item_of j))
           \<longrightarrow> a_summary a = take 150 (it_content (item_of j)) \<and> length (a_summary a) \<le> 150)"
      by (simp add: made_from_def summarizeArticle_Some)
    with j(1-3) show ?thesis by blast
  qed
  ultimately show ?thesis
    by (simp add: summarizeArticle_def summarize_def truthy_def item_of_def)
qed

theorem C5_summary_is_cut_at_150_witness:
  "hd (articles (snd (fetchArticles demo_env demo_state ''bob'')))
     \<in> set (articles (snd (fetchArticles demo_env demo_state ''bob''))) \<and>
   hd (articles (snd (fetchArticles demo_env demo_state ''bob''))) \<notin> set (articles demo_state) \<and>
   stored_text demo_env (take 150 (the (fi_contentSnippet (hd demo_feed)))) =
     take 150 (the (fi_contentSnippet (hd demo_feed))) \<and>
   a_summary (hd (articles (snd (fetchArticles demo_env demo_state ''bob'')))) =
     replicate 150 0x78 \<and>
   a_summary (hd (articles (snd (fetchArticles demo_env demo_state ''bob'')))) =
     take 150 (the (fi_contentSnippet (hd demo_feed)))"
  using C5_summary_is_cut_at_150 [of "[]" None "hd demo_feed" demo_env demo_state "''bob''"]
  by (simp add: demo_run) (simp add: demo_state_def demo_feed_def demo_env_def)

text \<open>
  The claim as stated fails for the summaries of ai.js, which the older server stores: for
  a content of 151 code units the summary has 153 and is not the first 150 of the content.
\<close>

theorem C5_ellipsis_counterexample:
  "summarize (Some (replicate 151 0x78)) = replicate 150 0x78 @ [0xE2, 0x20AC, 0xA6] \<and>
   length (summarize (Some (replicate 151 0x78))) = 153 \<and>
   summarize (Some (replicate 151 0x78)) \<noteq> take 150 (replicate 151 0x78)"
  by (simp add: summarize_def truthy_def ellipsis_def)

subsection \<open>The re-entrancy guard\<close>

lemma resume_busy:
  "isRunning st \<Longrightarrow>
   resume e st (Called u) = (st, Returned \<lparr>success = False, message = ''Fetch already in progress''\<rparr>)"
  by (simp add: resume_def)

lemma finish_guarded: "guarded (finish e st u n)"
  by (simp add: guarded_def finish_def split: prod.splits sum.splits)

lemma next_source_guarded: "isRunning st \<Longrightarrow> guarded (next_source e st u srcs L n)"
  by (cases srcs) (simp_all add: next_source_def finish_guarded, simp add: guarded_def)

lemma next_item_guarded: "isRunning st \<Longrightarrow> guarded (next_item e st u src its rest L n)"
  by (induction its) (simp_all add: next_source_guarded, simp add: guarded_def)

lemma resume_called_guarded: "\<not> isRunning st \<Longrightarrow> guarded (resume e st (Called u))"
  by (simp add: resume_def Let_def next_source_guarded)

lemma resume_in_flight_guarded:
  assumes "in_flight c" "isRunning st"
  shows "guarded (resume e st c)"
proof (cases c)
  case (Called u)
  with assms show ?thesis by simp
next
  case (Awaits_fetchSource u src rest L n)
  with assms(2) show ?thesis
    by (simp add: resume_def next_source_guarded next_item_guarded split: sum.splits)
next
  case (Awaits_summarizeArticle u src it its rest L n)
  let ?c = "articleQueries_create e st u (s_id src) (s_name src) (it_title it) (it_link it)
              (summarizeArticle (Some (it_content it))) (it_published it)"
  obtain r st' where c: "?c = (r, st')" by (cases ?c)
  have "isRunning (snd ?c) = isRunning st" by simp
  with c assms(2) have "isRunning st'" by simp
  with c Awaits_summarizeArticle show ?thesis
    by (cases r) (simp_all add: resume_def next_source_guarded next_item_guarded)
next
  case (Returned r)
  with assms show ?thesis by simp
qed

lemma resume_returned [simp]: "resume e st (Returned r) = (st, Returned r)"
  by (simp add: resume_def)

lemma filter_update_length:
  "n < length xs \<Longrightarrow>
   length (filter P (xs[n := y])) + (if P (xs ! n) then 1 else 0) =
   length (filter P xs) + (if P y then 1 else 0)"
proof (induction xs arbitrary: n)
  case Nil
  then show ?case by simp
next
  case (Cons x xs)
  then show ?case by (cases n) auto
qed

lemma register_isRunning [simp]:
  "isRunning (fst (snd (register e st sess email password))) = isRunning st"
  by (simp add: register_def userQueries_create_def saveDatabase_def Let_def
      split: option.splits prod.splits sum.splits)

lemma post_sources_isRunning [simp]:
  "isRunning (snd (post_sources e st sess name url type)) = isRunning st"
  by (simp add: post_sources_def sourceQueries_create_def saveDatabase_def Let_def
      split: option.splits prod.splits sum.splits)

lemma delete_source_isRunning [simp]:
  "isRunning (snd (delete_source e st sess idp)) = isRunning st"
  by (simp add: delete_source_def sourceQueries_delete_def saveDatabase_def Let_def
      split: option.splits prod.splits sum.splits)

text \<open>The routes that change the database are among the handlers that run in between.\<close>

lemma routes_run_between:
  assumes "running e (st, cs)"
  shows "running e (fst (snd (register e st sess email password)), cs)"
    and "running e (snd (post_sources e st sess name url type), cs)"
    and "running e (snd (delete_source e st sess idp), cs)"
  using assms by (auto intro: running.between)

lemma running_guard_holds: "running e scs \<Longrightarrow> guard_holds scs"
proof (induction rule: running.induct)
  case (booted st)
  then show ?case by (simp add: guard_holds_def)
next
  case (called st cs userId)
  show ?case
  proof (cases "isRunning st")
    case True
    with called.IH show ?thesis by (simp add: resume_busy guard_holds_def)
  next
    case False
    from resume_called_guarded[OF False, of e userId] called.IH False
    show ?thesis by (auto simp: guard_holds_def guarded_def split: if_splits)
  qed
next
  case (resumed st cs n)
  let ?c = "cs ! n"
  let ?r = "resume e st ?c"
  from resumed have c: "in_flight ?c \<or> (\<exists>r. ?c = Returned r)"
    by (simp add: guard_holds_def)
  show ?case
  proof (cases "in_flight ?c")
    case False
    with c obtain r where r: "?c = Returned r" by blast
    then have "cs[n := Returned r] = cs" by (metis list_update_id)
    with r resumed.IH show ?thesis by simp
  next
    case True
    with resumed.hyps have "filter in_flight cs \<noteq> []"
      by (auto simp: filter_empty_conv)
    with resumed.IH have run: "isRunning st" and one: "length (filter in_flight cs) = 1"
      by (auto simp: guard_holds_def split: if_splits)
    from resume_in_flight_guarded[OF True run, of e] have g: "guarded ?r" .
    from filter_update_length[OF resumed.hyps(2), of in_flight "snd ?r"] True one
    have len: "length (filter in_flight (cs[n := snd ?r])) = (if in_flight (snd ?r) then 1 else 0)"
      by simp
    have mem: "\<forall>c\<in>set (cs[n := snd ?r]). in_flight c \<or> (\<exists>r. c = Returned r)"
    proof
      fix x assume "x \<in> set (cs[n := snd ?r])"
      then have "x \<in> set cs \<or> x = snd ?r"
        using set_update_subset_insert[of cs n "snd ?r"] by auto
      with resumed.IH g show "in_flight x \<or> (\<exists>r. x = Returned r)"
        by (auto simp: guard_holds_def guarded_def split: if_splits)
    qed
    from g len mem show ?thesis
      by (auto simp: guard_holds_def guarded_def split: if_splits)
  qed
qed (simp_all add: guard_holds_def)

lemma goes_on_trans: "goes_on e a b \<Longrightarrow> goes_on e b c \<Longrightarrow> goes_on e a c"
  by (induction rule: goes_on.induct) (auto intro: goes_on.piece)

lemma next_item_goes_on:
  "goes_on e (next_item e st u src its rest L n)
     (case insert_items e u src its st L n of (r, st', L', n') \<Rightarrow> next_source e st' u rest L' n')"
proof (induction its arbitrary: st L n)
  case Nil
  show ?case by (simp add: goes_on.here)
next
  case (Cons it its)
  show ?case
  proof (cases "it_link it \<in> L")
    case True
    with Cons.IH[of st L n] show ?thesis by simp
  next
    case False
    let ?c = "articleQueries_create e st u (s_id src) (s_name src) (it_title it) (it_link it)
                (summarizeArticle (Some (it_content it))) (it_published it)"
    obtain r st' where c: "?c = (r, st')" by (cases ?c)
    show ?thesis
    proof (cases r)
      case (Inl err)
      with c False show ?thesis
        by (auto intro!: goes_on.piece simp: resume_def goes_on.here)
    next
      case (Inr x)
      with c False Cons.IH[of st' "insert (it_link it) L" "Suc n"] show ?thesis
        by (auto intro!: goes_on.piece simp: resume_def)
    qed
  qed
qed

lemma next_source_goes_on:
  "goes_on e (next_source e st u srcs L n)
     (case fetch_sources e u srcs st L n of (st', L', n') \<Rightarrow> finish e st' u n')"
proof (induction srcs arbitrary: st L n)
  case Nil
  show ?case by (simp add: next_source_def goes_on.here)
next
  case (Cons src srcs)
  show ?case
  proof (cases "fetchSource e st src")
    case (Inl err)
    with Cons.IH[of st L n] show ?thesis
      by (auto intro!: goes_on.piece simp: resume_def next_source_def)
  next
    case (Inr items)
    obtain r st1 L1 n1 where i: "insert_items e u src items st L n = (r, st1, L1, n1)"
      by (cases "insert_items e u src items st L n") auto
    from next_item_goes_on[of e st u src items srcs L n] i
    have "goes_on e (next_item e st u src items srcs L n) (next_source e st1 u srcs L1 n1)"
      by simp
    from goes_on_trans[OF this Cons.IH[of st1 L1 n1]] Inr i show ?thesis
      by (auto intro!: goes_on.piece simp: resume_def next_source_def)
  qed
qed

lemma fetchArticles_goes_on:
  "goes_on e (st, Called u) (snd (fetchArticles e st u), Returned (fst (fetchArticles e st u)))"
proof (cases "isRunning st")
  case True
  then show ?thesis
    by (auto intro!: goes_on.piece simp: resume_busy fetchArticles_busy goes_on.here)
next
  case False
  let ?st1 = "st\<lparr>isRunning := True\<rparr>"
  let ?srcs = "filter (\<lambda>s. s_enabled s \<noteq> 0) (sourceQueries_findByUser ?st1 u)"
  let ?L = "set (map (\<lambda>a. Some (a_link a)) (articleQueries_findByUser ?st1 u))"
  have "(case fetch_sources e u ?srcs ?st1 ?L 0 of (st', L', n') \<Rightarrow> finish e st' u n') =
        (snd (fetchArticles e st u), Returned (fst (fetchArticles e st u)))"
    using False
    by (simp add: fetchArticles_def finish_def Let_def split: prod.splits sum.splits)
  with next_source_goes_on[of e ?st1 u ?srcs ?L 0]
  have "goes_on e (next_source e ?st1 u ?srcs ?L 0)
          (snd (fetchArticles e st u), Returned (fst (fetchArticles e st u)))"
    by simp
  with False show ?thesis
    by (auto intro!: goes_on.piece simp: resume_def Let_def)
qed

lemma in_flight_finishes:
  assumes "in_flight c"
  shows "\<exists>st' r. goes_on e (st, c) (st', Returned r) \<and> \<not> isRunning st'"
proof -
  have fin: "\<exists>st' r. finish e s u n = (st', Returned r) \<and> \<not> isRunning st'" for s u n
    by (simp add: finish_def split: prod.splits sum.splits)
  have src: "\<exists>st' r. goes_on e (next_source e s u srcs L n) (st', Returned r) \<and> \<not> isRunning st'"
    for s u srcs L n
  proof -
    obtain s' L' n' where f: "fetch_sources e u srcs s L n = (s', L', n')"
      by (cases "fetch_sources e u srcs s L n") auto
    from fin[of s' u n'] obtain st' r where "finish e s' u n' = (st', Returned r)" "\<not> isRunning st'"
      by blast
    with next_source_goes_on[of e s u srcs L n] f show ?thesis by auto
  qed
  have itm: "\<exists>st' r. goes_on e (next_item e s u sr its rest L n) (st', Returned r) \<and> \<not> isRunning st'"
    for s u sr its rest L n
  proof -
    obtain r s1 L1 n1 where i: "insert_items e u sr its s L n = (r, s1, L1, n1)"
      by (cases "insert_items e u sr its s L n") auto
    from src[of s1 u rest L1 n1] obtain st' r' where
      "goes_on e (next_source e s1 u rest L1 n1) (st', Returned r')" "\<not> isRunning st'" by blast
    with next_item_goes_on[of e s u sr its rest L n] i show ?thesis
      by (auto intro: goes_on_trans)
  qed
  have go: "\<exists>st' r. goes_on e (st, c) (st', Returned r) \<and> \<not> isRunning st'"
    if "\<exists>st' r. goes_on e (resume e st c) (st', Returned r) \<and> \<not> isRunning st'"
    using that by (blast intro: goes_on.piece)
  show ?thesis
  proof (cases c)
    case (Called u)
    with assms show ?thesis by simp
  next
    case (Awaits_fetchSource u sr rest L n)
    show ?thesis
    proof (cases "fetchSource e st sr")
      case (Inl err)
      then have "resume e st c = next_source e st u rest L n"
        by (simp add: resume_def Awaits_fetchSource)
      with src[of st u rest L n] show ?thesis by (intro go) simp
    next
      case (Inr items)
      then have "resume e st c = next_item e st u sr items rest L n"
        by (simp add: resume_def Awaits_fetchSource)
      with itm[of st u sr items rest L n] show ?thesis by (intro go) simp
    qed
  next
    case (Awaits_summarizeArticle u sr it its rest L n)
    let ?c = "articleQueries_create e st u (s_id sr) (s_name sr) (it_title it) (it_link it)
                (summarizeArticle (Some (it_content it))) (it_published it)"
    obtain r st1 where c: "?c = (r, st1)" by (cases ?c)
    show ?thesis
    proof (cases r)
      case (Inl err)
      with c have "resume e st c = next_source e st1 u rest L n"
        by (simp add: resume_def Awaits_summarizeArticle)
      with src[of st1 u rest L n] show ?thesis by (intro go) simp
    next
      case (Inr x)
      with c have "resume e st c =
          next_item e st1 u sr its rest (insert (it_link it) L) (Suc n)"
        by (simp add: resume_def Awaits_summarizeArticle)
      with itm[of st1 u sr its rest "insert (it_link it) L" "Suc n"] show ?thesis
        by (intro go) simp
    qed
  next
    case (Returned r)
    with assms show ?thesis by simp
  qed
qed

lemma demo_full_count:
  "articleQueries_countByUser (demo_full\<lparr>isRunning := b\<rparr>) ''bob'' = 201"
  by (simp add: articleQueries_countByUser_def demo_full_def demo_state_def demo_article_def)

lemma demo_full_after: "after_insertions e demo_full u = demo_full\<lparr>isRunning := True\<rparr>"
  by (simp add: after_insertions_def enabled_sources_def sourceQueries_findByUser_def
      order_by_desc_def demo_full_def demo_state_def)

lemma demo_call:
  "resume demo_env demo_state (Called ''bob'') = (demo_state\<lparr>isRunning := True\<rparr>, demo_waiting)"
  by (simp add: resume_def next_source_def demo_waiting_def demo_state_def demo_source_def
      sourceQueries_findByUser_def articleQueries_findByUser_def order_by_desc_def Let_def)

lemma demo_atom_call:
  "resume demo_env demo_atom (Called ''bob'') = (demo_atom\<lparr>isRunning := True\<rparr>, demo_atom_waiting)"
  by (simp add: resume_def next_source_def demo_atom_waiting_def demo_atom_def demo_state_def
      demo_source_def sourceQueries_findByUser_def articleQueries_findByUser_def
      order_by_desc_def Let_def)

lemma demo_atom_returns:
  "resume demo_env (demo_atom\<lparr>isRunning := True\<rparr>) demo_atom_waiting =
     (demo_atom,
      Returned \<lparr>success = True, message = ''Fetched 0 new articles. Total: 0''\<rparr>)"
  by (simp add: resume_def next_source_def finish_def prune_def demo_atom_waiting_def
      demo_atom_def demo_state_def demo_source_def fetchSource_def
      articleQueries_countByUser_def MAX_ARTICLES_def dec.simps Let_def)

lemma demo_full_links:
  "(\<lambda>a. Some (a_link a)) ` set (articleQueries_findByUser (demo_full_atom\<lparr>isRunning := True\<rparr>) ''bob'') =
   (\<lambda>a. Some (a_link a)) ` set (articles demo_full)"
proof -
  have "filter (\<lambda>a. a_user_id a = ''bob'') (articles demo_full) = articles demo_full"
    by (simp add: demo_full_def demo_article_def filter_map comp_def)
  then show ?thesis
    by (simp add: articleQueries_findByUser_def demo_full_atom_def)
qed

lemma demo_full_call:
  "resume demo_env_disk_full demo_full_atom (Called ''bob'') =
     (demo_full_atom\<lparr>isRunning := True\<rparr>, demo_full_waiting)"
proof -
  have "filter (\<lambda>s. s_enabled s \<noteq> 0) (sourceQueries_findByUser (demo_full_atom\<lparr>isRunning := True\<rparr>) ''bob'') =
        [demo_source\<lparr>s_type := ''atom''\<rparr>]"
    by (simp add: sourceQueries_findByUser_def order_by_desc_def demo_full_atom_def demo_source_def)
  moreover have "\<not> isRunning demo_full_atom"
    by (simp add: demo_full_atom_def demo_full_def demo_state_def)
  ultimately show ?thesis
    by (simp add: resume_def next_source_def demo_full_waiting_def demo_full_links Let_def)
qed

lemma demo_full_atom_count:
  "articleQueries_countByUser (demo_full_atom\<lparr>isRunning := True\<rparr>) ''bob'' = 201"
  using demo_full_count[of True]
  by (simp add: articleQueries_countByUser_def demo_full_atom_def)

lemma demo_full_returns:
  "snd (resume demo_env_disk_full (demo_full_atom\<lparr>isRunning := True\<rparr>) demo_full_waiting) =
     Returned \<lparr>success = False, message = ''failed''\<rparr>"
  using demo_full_atom_count
  by (simp add: resume_def next_source_def finish_def prune_def demo_full_waiting_def
      fetchSource_def MAX_ARTICLES_def articleQueries_deleteOldest_def saveDatabase_def
      demo_env_disk_full_def demo_env_def Let_def)

text \<open>
  C4: in every state that the process reaches, whatever calls of fetchArticles were made,
  for whatever users, and however their pieces and the other routes followed each other:
  the flag isRunning is set exactly while a call is in flight, and at most one call is.
  While one is in flight, a further call, for any user, returns in its first piece with
  success false and the message 'Fetch already in progress' and leaves the state as it is
  (so does fetchArticles run in one go, and the route POST /api/fetch answers with that
  result). The call in flight returns if it is let go on, and the flag is clear then; and
  whenever a piece of it returns, with whatever result, the flag is clear after that piece
  and no call is in flight. A call that runs piece by piece with nothing in between
  arrives at the state and the result of fetchArticles.
\<close>

theorem C4_fetch_not_reentrant:
  assumes "running e (st, cs)"
  shows "(isRunning st \<longleftrightarrow> (\<exists>c\<in>set cs. in_flight c)) \<and>
         length (filter in_flight cs) \<le> 1 \<and>
         ((\<exists>c\<in>set cs. in_flight c) \<longrightarrow>
            resume e st (Called u) =
              (st, Returned \<lparr>success = False, message = ''Fetch already in progress''\<rparr>) \<and>
            fetchArticles e st u =
              (\<lparr>success = False, message = ''Fetch already in progress''\<rparr>, st) \<and>
            (truthy (sess_userId sess) \<longrightarrow>
               post_fetch e st sess =
                 (reply 200 (Fetch_json \<lparr>success = False, message = ''Fetch already in progress''\<rparr>),
                  st))) \<and>
         (\<forall>n<length cs. in_flight (cs ! n) \<longrightarrow>
            (\<exists>st' r. goes_on e (st, cs ! n) (st', Returned r) \<and> \<not> isRunning st') \<and>
            (\<forall>r. snd (resume e st (cs ! n)) = Returned r \<longrightarrow>
               \<not> isRunning (fst (resume e st (cs ! n))) \<and>
               filter in_flight (cs[n := Returned r]) = [])) \<and>
         goes_on e (st, Called u)
           (snd (fetchArticles e st u), Returned (fst (fetchArticles e st u)))"
proof -
  from assms have g: "guard_holds (st, cs)" by (rule running_guard_holds)
  have ex: "(\<exists>c\<in>set cs. in_flight c) \<longleftrightarrow> filter in_flight cs \<noteq> []"
    by (auto simp: filter_empty_conv)
  from g have flag: "isRunning st \<longleftrightarrow> (\<exists>c\<in>set cs. in_flight c)"
    unfolding ex by (auto simp: guard_holds_def split: if_splits)
  from g have one: "length (filter in_flight cs) \<le> 1"
    by (simp add: guard_holds_def)
  have busy: "resume e st (Called u) =
              (st, Returned \<lparr>success = False, message = ''Fetch already in progress''\<rparr>) \<and>
            fetchArticles e st u =
              (\<lparr>success = False, message = ''Fetch already in progress''\<rparr>, st) \<and>
            (truthy (sess_userId sess) \<longrightarrow>
               post_fetch e st sess =
                 (reply 200 (Fetch_json \<lparr>success = False, message = ''Fetch already in progress''\<rparr>),
                  st))"
    if "\<exists>c\<in>set cs. in_flight c"
  proof -
    from that flag have "isRunning st" by simp
    then show ?thesis by (simp add: resume_busy fetchArticles_busy post_fetch_def)
  qed
  have fin: "(\<exists>st' r. goes_on e (st, cs ! n) (st', Returned r) \<and> \<not> isRunning st') \<and>
            (\<forall>r. snd (resume e st (cs ! n)) = Returned r \<longrightarrow>
               \<not> isRunning (fst (resume e st (cs ! n))) \<and>
               filter in_flight (cs[n := Returned r]) = [])"
    if n: "n < length cs" and c: "in_flight (cs ! n)" for n
  proof -
    from n c have "\<exists>c\<in>set cs. in_flight c" by auto
    with flag have run: "isRunning st" by simp
    have "\<not> isRunning (fst (resume e st (cs ! n))) \<and>
          filter in_flight (cs[n := Returned r]) = []"
      if r: "snd (resume e st (cs ! n)) = Returned r" for r
    proof -
      from resume_in_flight_guarded[OF c run, of e] r
      have off: "\<not> isRunning (fst (resume e st (cs ! n)))"
        by (auto simp: guarded_def split: if_splits)
      from running.resumed[OF assms n]
      have "guard_holds (fst (resume e st (cs ! n)), cs[n := snd (resume e st (cs ! n))])"
        by (rule running_guard_holds)
      with off r show ?thesis by (simp add: guard_holds_def)
    qed
    with in_flight_finishes[OF c, of e st] show ?thesis by blast
  qed
  from flag one busy fin fetchArticles_goes_on[of e st u] show ?thesis by blast
qed

theorem C4_fetch_not_reentrant_witness:
  "running demo_env (demo_state\<lparr>isRunning := True\<rparr>, [demo_waiting]) \<and>
   in_flight demo_waiting \<and>
   resume demo_env (demo_state\<lparr>isRunning := True\<rparr>) (Called ''alice'') =
     (demo_state\<lparr>isRunning := True\<rparr>,
      Returned \<lparr>success = False, message = ''Fetch already in progress''\<rparr>) \<and>
   post_fetch demo_env (demo_state\<lparr>isRunning := True\<rparr>)
       \<lparr>sess_userId = Some ''alice'', sess_email = Some ''alice@example.org''\<rparr> =
     (reply 200 (Fetch_json \<lparr>success = False, message = ''Fetch already in progress''\<rparr>),
      demo_state\<lparr>isRunning := True\<rparr>) \<and>
   running demo_env (demo_atom\<lparr>isRunning := True\<rparr>, [demo_atom_waiting]) \<and>
   snd (resume demo_env (demo_atom\<lparr>isRunning := True\<rparr>) demo_atom_waiting) =
     Returned \<lparr>success = True, message = ''Fetched 0 new articles. Total: 0''\<rparr> \<and>
   \<not> isRunning (fst (resume demo_env (demo_atom\<lparr>isRunning := True\<rparr>) demo_atom_waiting)) \<and>
   running demo_env_disk_full (demo_full_atom\<lparr>isRunning := True\<rparr>, [demo_full_waiting]) \<and>
   snd (resume demo_env_disk_full (demo_full_atom\<lparr>isRunning := True\<rparr>) demo_full_waiting) =
     Returned \<lparr>success = False, message = ''failed''\<rparr> \<and>
   \<not> isRunning (fst (resume demo_env_disk_full (demo_full_atom\<lparr>isRunning := True\<rparr>)
                      demo_full_waiting))"
proof -
  have i: "\<not> isRunning demo_state" "\<not> isRunning demo_atom" "\<not> isRunning demo_full_atom"
    by (simp_all add: demo_state_def demo_atom_def demo_full_atom_def demo_full_def)
  have a: "running demo_env (demo_state\<lparr>isRunning := True\<rparr>, [demo_waiting])"
    using running.called[OF running.booted[OF i(1)], of demo_env "''bob''"]
    by (simp add: demo_call)
  have s: "running demo_env (demo_atom\<lparr>isRunning := True\<rparr>, [demo_atom_waiting])"
    using running.called[OF running.booted[OF i(2)], of demo_env "''bob''"]
    by (simp add: demo_atom_call)
  have f: "running demo_env_disk_full (demo_full_atom\<lparr>isRunning := True\<rparr>, [demo_full_waiting])"
    using running.called[OF running.booted[OF i(3)], of demo_env_disk_full "''bob''"]
    by (simp add: demo_full_call)
  have w: "in_flight demo_waiting" "in_flight demo_atom_waiting" "in_flight demo_full_waiting"
    by (simp_all add: demo_waiting_def demo_atom_waiting_def demo_full_waiting_def)
  have t: "truthy (Some ''alice'')" by (simp add: truthy_def)
  from C4_fetch_not_reentrant [OF a, of "''alice''"
      "\<lparr>sess_userId = Some ''alice'', sess_email = Some ''alice@example.org''\<rparr>"] w(1) t
  have 1: "resume demo_env (demo_state\<lparr>isRunning := True\<rparr>) (Called ''alice'') =
     (demo_state\<lparr>isRunning := True\<rparr>,
      Returned \<lparr>success = False, message = ''Fetch already in progress''\<rparr>)"
    and 2: "post_fetch demo_env (demo_state\<lparr>isRunning := True\<rparr>)
       \<lparr>sess_userId = Some ''alice'', sess_email = Some ''alice@example.org''\<rparr> =
     (reply 200 (Fetch_json \<lparr>success = False, message = ''Fetch already in progress''\<rparr>),
      demo_state\<lparr>isRunning := True\<rparr>)"
    by simp_all
  have sr: "snd (resume demo_env (demo_atom\<lparr>isRunning := True\<rparr>) demo_atom_waiting) =
     Returned \<lparr>success = True, message = ''Fetched 0 new articles. Total: 0''\<rparr>"
    by (simp add: demo_atom_returns)
  from C4_fetch_not_reentrant [OF s, of "''bob''" demo_session] w(2) sr
  have 3: "\<not> isRunning (fst (resume demo_env (demo_atom\<lparr>isRunning := True\<rparr>) demo_atom_waiting))"
    by simp
  from C4_fetch_not_reentrant [OF f, of "''bob''" demo_session] w(3) demo_full_returns
  have 4: "\<not> isRunning (fst (resume demo_env_disk_full (demo_full_atom\<lparr>isRunning := True\<rparr>)
                      demo_full_waiting))"
    by simp
  from a w(1) 1 2 s sr 3 f demo_full_returns 4 show ?thesis by (intro conjI)
qed

subsection \<open>Reading the feed and the sources\<close>

lemma order_by_desc_mset [simp]: "mset (order_by_desc k xs) = mset xs"
  by (simp add: order_by_desc_def)

lemma order_by_desc_sorted: "sorted_wrt (\<lambda>a b. k b \<le> k a) (order_by_desc k xs)"
proof -
  have "sorted (map k (sort_key k (rev xs)))" by (rule sorted_sort_key)
  then have "sorted_wrt (\<lambda>a b. k a \<le> k b) (sort_key k (rev xs))"
    by (simp add: sorted_wrt_map)
  then show ?thesis
    by (simp add: order_by_desc_def sorted_wrt_rev)
qed

text \<open>
  C7: for an authenticated user u, GET /api/feed answers with exactly the articles whose
  user_id is u (each once, in the order of the query), and two states with the same rows
  of u in the articles table give the same answer, whatever else differs; GET
  /api/sources does the same with the sources table.
\<close>

theorem C7_feed_and_sources_are_per_user:
  assumes "sess_userId sess = Some u" and "u \<noteq> []"
  shows "get_feed st sess = reply 200 (Articles_json (articleQueries_findByUser st u)) \<and>
         mset (articleQueries_findByUser st u) =
           mset (filter (\<lambda>a. a_user_id a = u) (articles st)) \<and>
         (filter (\<lambda>a. a_user_id a = u) (articles st') = filter (\<lambda>a. a_user_id a = u) (articles st)
            \<longrightarrow> get_feed st' sess = get_feed st sess) \<and>
         get_sources st sess = reply 200 (Sources_json (sourceQueries_findByUser st u)) \<and>
         mset (sourceQueries_findByUser st u) =
           mset (filter (\<lambda>s. s_user_id s = u) (sources st)) \<and>
         (filter (\<lambda>s. s_user_id s = u) (sources st') = filter (\<lambda>s. s_user_id s = u) (sources st)
            \<longrightarrow> get_sources st' sess = get_sources st sess)"
  using assms
  by (simp add: get_feed_def get_sources_def truthy_def articleQueries_findByUser_def
      sourceQueries_findByUser_def)

theorem C7_feed_and_sources_are_per_user_witness:
  "sess_userId demo_session = Some ''bob'' \<and> ''bob'' \<noteq> [] \<and>
   filter (\<lambda>a. a_user_id a = ''bob'') (articles demo_other') =
     filter (\<lambda>a. a_user_id a = ''bob'') (articles demo_other) \<and>
   articles demo_other' \<noteq> articles demo_other \<and>
   get_feed demo_other' demo_session = get_feed demo_other demo_session \<and>
   filter (\<lambda>s. s_user_id s = ''bob'') (sources demo_other') =
     filter (\<lambda>s. s_user_id s = ''bob'') (sources demo_other) \<and>
   sources demo_other' \<noteq> sources demo_other \<and>
   get_sources demo_other' demo_session = get_sources demo_other demo_session \<and>
   get_feed demo_other demo_session = reply 200 (Articles_json [demo_article 0, demo_article 2])"
  using C7_feed_and_sources_are_per_user [of demo_session "''bob''" demo_other' demo_other]
  by (simp add: demo_session_def demo_other_def demo_other'_def demo_state_def demo_article_def
      demo_source_def get_feed_def truthy_def articleQueries_findByUser_def order_by_desc_def)

text \<open>
  C8: the list that GET /api/feed returns is in descending order of published_at, under
  the order of the query (the text order of the column, NULL last): every article is
  followed only by articles whose published_at is not greater, adjacent ones in particular.
\<close>

theorem C8_feed_is_sorted_newest_first:
  assumes "sess_userId sess = Some u" and "u \<noteq> []"
  shows "get_feed st sess = reply 200 (Articles_json (articleQueries_findByUser st u)) \<and>
         sorted_wrt (\<lambda>a b. a_published_at b \<le> a_published_at a)
           (articleQueries_findByUser st u) \<and>
         (\<forall>n. Suc n < length (articleQueries_findByUser st u) \<longrightarrow>
            a_published_at (articleQueries_findByUser st u ! Suc n)
              \<le> a_published_at (articleQueries_findByUser st u ! n))"
proof -
  let ?xs = "articleQueries_findByUser st u"
  have s: "sorted_wrt (\<lambda>a b. a_published_at b \<le> a_published_at a) ?xs"
    by (simp add: articleQueries_findByUser_def order_by_desc_sorted)
  then have "\<forall>n. Suc n < length ?xs \<longrightarrow> a_published_at (?xs ! Suc n) \<le> a_published_at (?xs ! n)"
    by (simp add: sorted_wrt_iff_nth_less)
  with s assms show ?thesis
    by (simp add: get_feed_def truthy_def)
qed

theorem C8_feed_is_sorted_newest_first_witness:
  "sess_userId demo_session = Some ''bob'' \<and> ''bob'' \<noteq> [] \<and>
   get_feed demo_dated demo_session =
     reply 200 (Articles_json
       [(demo_article 2)\<lparr>a_published_at := Some ''2026-11-02T08:00:00Z''\<rparr>,
        (demo_article 0)\<lparr>a_published_at := Some ''2026-11-01T08:00:00Z''\<rparr>,
        demo_article 1]) \<and>
   sorted_wrt (\<lambda>a b. a_published_at b \<le> a_published_at a)
       [(demo_article 2)\<lparr>a_published_at := Some ''2026-11-02T08:00:00Z''\<rparr>,
        (demo_article 0)\<lparr>a_published_at := Some ''2026-11-01T08:00:00Z''\<rparr>,
        demo_article 1] \<and>
   Suc 0 < length (articleQueries_findByUser demo_dated ''bob'') \<and>
   a_published_at (articleQueries_findByUser demo_dated ''bob'' ! Suc 0)
     \<le> a_published_at (articleQueries_findByUser demo_dated ''bob'' ! 0)"
  using C8_feed_is_sorted_newest_first [of demo_session "''bob''" demo_dated]
  by (simp add: demo_session_def demo_dated_def demo_state_def demo_article_def
      get_feed_def truthy_def articleQueries_findByUser_def order_by_desc_def reply_def)

subsection \<open>Deleting a source\<close>

lemma sourceQueries_delete_state:
  "snd (sourceQueries_delete e st sid u) =
     st\<lparr>sources := filter (\<lambda>s. \<not> (Some (s_id s) = sid \<and> s_user_id s = u)) (sources st),
        tick := Suc (Suc (tick st))\<rparr>"
  by (simp add: sourceQueries_delete_def saveDatabase_def Let_def)

lemma sourceQueries_delete_result:
  "fst (sourceQueries_delete e st sid u) =
     (if disk_ok e (Suc (tick st))
      then Inr (if counters_survive_export e
                then length (filter (\<lambda>s. Some (s_id s) = sid \<and> s_user_id s = u) (sources st))
                else 0)
      else Inl Write_failed)"
  by (simp add: sourceQueries_delete_def saveDatabase_def Let_def)

lemma delete_source_state:
  "truthy (sess_userId sess) \<Longrightarrow>
   snd (delete_source e st sess idp) =
     snd (sourceQueries_delete e st (parseInt e idp) (the (sess_userId sess)))"
  by (simp add: delete_source_def split: prod.splits sum.splits)

text \<open>
  C10: DELETE /api/sources/:id for the authenticated user u removes exactly the rows that
  have the given id and belong to u. The sources of other users and the other sources of
  u stay as they are, in every case, and so do the other tables. When no row has that id
  and that owner (the id may be another user's), no row is removed, and the answer is 404
  with the error 'Source not found' (given that the database file can be written; the
  route answers 500 when that write throws).
\<close>

theorem C10_delete_touches_only_the_own_source:
  assumes "sess_userId sess = Some u" and "u \<noteq> []"
  shows "sources (snd (delete_source e st sess idp)) =
           filter (\<lambda>s. \<not> (Some (s_id s) = parseInt e idp \<and> s_user_id s = u)) (sources st) \<and>
         filter (\<lambda>s. s_user_id s \<noteq> u) (sources (snd (delete_source e st sess idp))) =
           filter (\<lambda>s. s_user_id s \<noteq> u) (sources st) \<and>
         filter (\<lambda>s. s_user_id s = u \<and> Some (s_id s) \<noteq> parseInt e idp)
             (sources (snd (delete_source e st sess idp))) =
           filter (\<lambda>s. s_user_id s = u \<and> Some (s_id s) \<noteq> parseInt e idp) (sources st) \<and>
         users (snd (delete_source e st sess idp)) = users st \<and>
         articles (snd (delete_source e st sess idp)) = articles st \<and>
         ((\<forall>s\<in>set (sources st). \<not> (Some (s_id s) = parseInt e idp \<and> s_user_id s = u)) \<longrightarrow>
            sources (snd (delete_source e st sess idp)) = sources st \<and>
            (disk_ok e (Suc (tick st)) \<longrightarrow>
               fst (delete_source e st sess idp) = reply 404 (Error_json ''Source not found'')))"
proof -
  have t: "truthy (sess_userId sess)" using assms by (simp add: truthy_def)
  have s: "sources (snd (delete_source e st sess idp)) =
           filter (\<lambda>s. \<not> (Some (s_id s) = parseInt e idp \<and> s_user_id s = u)) (sources st)"
    using assms by (simp add: delete_source_state[OF t] sourceQueries_delete_state)
  have f1: "filter (\<lambda>s. s_user_id s \<noteq> u) (sources (snd (delete_source e st sess idp))) =
           filter (\<lambda>s. s_user_id s \<noteq> u) (sources st)"
    unfolding s filter_filter by (rule filter_cong) auto
  have f2: "filter (\<lambda>s. s_user_id s = u \<and> Some (s_id s) \<noteq> parseInt e idp)
             (sources (snd (delete_source e st sess idp))) =
           filter (\<lambda>s. s_user_id s = u \<and> Some (s_id s) \<noteq> parseInt e idp) (sources st)"
    unfolding s filter_filter by (rule filter_cong) auto
  have o: "users (snd (delete_source e st sess idp)) = users st \<and>
         articles (snd (delete_source e st sess idp)) = articles st"
    by (simp add: delete_source_state[OF t] sourceQueries_delete_state)
  have n: "sources (snd (delete_source e st sess idp)) = sources st \<and>
            (disk_ok e (Suc (tick st)) \<longrightarrow>
               fst (delete_source e st sess idp) = reply 404 (Error_json ''Source not found''))"
    if none: "\<forall>s\<in>set (sources st). \<not> (Some (s_id s) = parseInt e idp \<and> s_user_id s = u)"
  proof -
    from none have a: "filter (\<lambda>s. \<not> (Some (s_id s) = parseInt e idp \<and> s_user_id s = u)) (sources st) = sources st"
      by (simp add: filter_id_conv)
    from none have b: "filter (\<lambda>s. Some (s_id s) = parseInt e idp \<and> s_user_id s = u) (sources st) = []"
      by (simp add: filter_empty_conv)
    have "fst (delete_source e st sess idp) = reply 404 (Error_json ''Source not found'')"
      if "disk_ok e (Suc (tick st))"
    proof -
      obtain r st' where d: "sourceQueries_delete e st (parseInt e idp) u = (r, st')"
        by (cases "sourceQueries_delete e st (parseInt e idp) u")
      with that b sourceQueries_delete_result[of e st "parseInt e idp" u]
      have "r = Inr 0" by simp
      with d t assms show ?thesis by (simp add: delete_source_def)
    qed
    with s a show ?thesis by simp
  qed
  from s f1 f2 o n show ?thesis by blast
qed

theorem C10_delete_touches_only_the_own_source_witness:
  "sess_userId demo_session = Some ''bob'' \<and> ''bob'' \<noteq> [] \<and>
   filter (\<lambda>s. Some (s_id s) = parseInt (demo_env\<lparr>parseInt := demo_parseInt\<rparr>) ''7'' \<and>
               s_user_id s = ''bob'') (sources demo_two) = [] \<and>
   disk_ok (demo_env\<lparr>parseInt := demo_parseInt\<rparr>) (Suc (tick demo_two)) \<and>
   fst (delete_source (demo_env\<lparr>parseInt := demo_parseInt\<rparr>) demo_two demo_session ''7'') =
     reply 404 (Error_json ''Source not found'') \<and>
   sources (snd (delete_source (demo_env\<lparr>parseInt := demo_parseInt\<rparr>) demo_two demo_session ''7'')) =
     sources demo_two \<and>
   sources (snd (delete_source (demo_env\<lparr>parseInt := demo_parseInt\<rparr>) demo_two demo_session ''1'')) =
     [demo_source\<lparr>s_id := 7, s_user_id := ''alice''\<rparr>, demo_source\<lparr>s_id := 8, s_name := ''More''\<rparr>]"
  using C10_delete_touches_only_the_own_source
          [of demo_session "''bob''" "demo_env\<lparr>parseInt := demo_parseInt\<rparr>" demo_two "''7''"]
        C10_delete_touches_only_the_own_source
          [of demo_session "''bob''" "demo_env\<lparr>parseInt := demo_parseInt\<rparr>" demo_two "''1''"]
  by (simp add: demo_session_def demo_two_def demo_state_def demo_source_def demo_env_def
      demo_parseInt_def)

subsection \<open>Registration\<close>

lemma lower_char_idem: "lower_char (lower_char c) = lower_char c"
  by (simp add: lower_char_def)

lemma lower_char_range: "lower_char c = c \<or> lower_char c \<in> set ''abcdefghijklmnopqrstuvwxyz''"
  by (simp add: lower_char_def)

lemma demo_toLowerCase_idem: "demo_toLowerCase (demo_toLowerCase s) = demo_toLowerCase s"
proof -
  have "lower_char c \<noteq> CHR 0xC9" if "c \<noteq> CHR 0xC9" for c
    using lower_char_range[of c] that by auto
  moreover have "lower_char (CHR 0xE9) = CHR 0xE9"
    by (simp add: lower_char_def)
  ultimately show ?thesis
    by (simp add: demo_toLowerCase_def lower_char_idem)
qed

lemma userQueries_create_users:
  "users (snd (userQueries_create e st uid em pw)) = users st \<or>
   (em \<notin> set (map u_email (users st)) \<and>
    (\<exists>x. users (snd (userQueries_create e st uid em pw)) = users st @ [x] \<and> u_email x = em))"
  by (simp add: userQueries_create_def)

lemma register_users:
  "users (fst (snd (register e st sess email password))) = users st \<or>
   (toLowerCase e (the email) \<notin> set (map u_email (users st)) \<and>
    (\<exists>x. users (fst (snd (register e st sess email password))) = users st @ [x] \<and>
         u_email x = toLowerCase e (the email)))"
proof -
  let ?c = "userQueries_create e st (new_user_id e (tick st)) (toLowerCase e (the email))
              (bcrypt_hash e (the password))"
  have "users (fst (snd (register e st sess email password))) = users st \<or>
        users (fst (snd (register e st sess email password))) = users (snd ?c)"
    by (simp add: register_def Let_def split: option.splits prod.splits sum.splits)
  with userQueries_create_users[of e st "new_user_id e (tick st)" "toLowerCase e (the email)"
      "bcrypt_hash e (the password)"]
  show ?thesis by metis
qed

lemma register_emails_ok:
  assumes "emails_ok e st" and "\<forall>s. toLowerCase e (toLowerCase e s) = toLowerCase e s"
  shows "emails_ok e (fst (snd (register e st sess email password)))"
  using register_users[of e st sess email password] assms
  by (auto simp: emails_ok_def)

lemma post_sources_users [simp]: "users (snd (post_sources e st sess name url type)) = users st"
  by (simp add: post_sources_def sourceQueries_create_def saveDatabase_def Let_def
      split: option.splits prod.splits sum.splits)

lemma delete_source_users [simp]: "users (snd (delete_source e st sess idp)) = users st"
  by (simp add: delete_source_def sourceQueries_delete_def saveDatabase_def Let_def
      split: option.splits prod.splits sum.splits)

lemma prune_frame [simp]:
  "users (snd (prune e st u)) = users st"
  "sources (snd (prune e st u)) = sources st"
  by (simp_all add: prune_def articleQueries_deleteOldest_def Let_def)

lemma after_insertions_frame [simp]:
  "users (after_insertions e st u) = users st"
  "sources (after_insertions e st u) = sources st"
  by (simp_all add: after_insertions_def)

lemma fetchArticles_frame [simp]:
  "users (snd (fetchArticles e st u)) = users st"
  "sources (snd (fetchArticles e st u)) = sources st"
  by (cases "isRunning st"; simp add: fetchArticles_busy fetchArticles_state)+

lemma post_fetch_state:
  "snd (post_fetch e st sess) = st \<or>
   snd (post_fetch e st sess) = snd (fetchArticles e st (the (sess_userId sess)))"
  by (simp add: post_fetch_def split: prod.splits)

lemma post_fetch_users [simp]: "users (snd (post_fetch e st sess)) = users st"
  using post_fetch_state[of e st sess] by auto

lemma reachable_emails_ok:
  assumes "\<forall>s. toLowerCase e (toLowerCase e s) = toLowerCase e s"
  shows "reachable e st \<Longrightarrow> emails_ok e st"
proof (induction rule: reachable.induct)
  case started
  show ?case by (simp add: emails_ok_def initial_state_def)
next
  case (registered st sess email password)
  with assms show ?case by (simp add: register_emails_ok)
qed (simp_all add: emails_ok_def)

lemma find_email:
  "x \<in> set xs \<Longrightarrow> u_email x = em \<Longrightarrow> \<exists>y. find (\<lambda>u. u_email u = em) xs = Some y"
  by (cases "find (\<lambda>u. u_email u = em) xs") (auto simp: find_None_iff)

lemma demo_registered_users:
  "users demo_registered =
     [\<lparr>u_id = ''carol'', u_email = CHR 0xE9 # ''va@example.org'', u_password = ''hash of secret'',
       u_created_at = ''2026-11-03 10:00:00''\<rparr>]"
  by (simp add: demo_registered_def register_def initial_state_def demo_env_def truthy_def
      userQueries_findByEmail_def userQueries_create_def saveDatabase_def demo_toLowerCase_def
      lower_char_def Let_def)

text \<open>
  C9: \<^verbatim>\<open>toLowerCase\<close> is a builtin; what is used of it is that lowering a lowered string
  changes nothing. In every state that the routes reach from the empty database no two
  users have emails that are equal ignoring case, that is, equal once lowered, whatever
  the script of their letters. Registration stores the lowered email, if it stores
  anything; and a registration (with email and password) of an email that some user
  already has, in any casing, answers 400 with the error 'Email already exists' and
  changes nothing.
\<close>

theorem C9_emails_unique_up_to_case:
  assumes "reachable e st" and "\<forall>s. toLowerCase e (toLowerCase e s) = toLowerCase e s"
  shows "distinct (map (\<lambda>x. toLowerCase e (u_email x)) (users st)) \<and>
         (users (fst (snd (register e st sess email password))) = users st \<or>
          (\<exists>x. users (fst (snd (register e st sess email password))) = users st @ [x] \<and>
               u_email x = toLowerCase e (the email))) \<and>
         (truthy email \<and> truthy password \<and>
          (\<exists>x\<in>set (users st). toLowerCase e (u_email x) = toLowerCase e (the email)) \<longrightarrow>
            register e st sess email password =
              (reply 400 (Error_json ''Email already exists''), st, sess))"
proof -
  from assms(2) assms(1) have ok: "emails_ok e st" by (rule reachable_emails_ok)
  then have "map (\<lambda>x. toLowerCase e (u_email x)) (users st) = map u_email (users st)"
    by (simp add: emails_ok_def)
  moreover from ok have "distinct (map u_email (users st))"
    by (simp add: emails_ok_def)
  ultimately have d: "distinct (map (\<lambda>x. toLowerCase e (u_email x)) (users st))"
    by (simp only:)
  have r: "register e st sess email password =
              (reply 400 (Error_json ''Email already exists''), st, sess)"
    if "truthy email" "truthy password" "x \<in> set (users st)"
       "toLowerCase e (u_email x) = toLowerCase e (the email)" for x
  proof -
    from ok that have "u_email x = toLowerCase e (the email)" by (auto simp: emails_ok_def)
    from find_email[OF that(3) this] obtain y where
      "userQueries_findByEmail st (toLowerCase e (the email)) = Some y"
      by (auto simp: userQueries_findByEmail_def)
    with that show ?thesis by (simp add: register_def)
  qed
  from register_users[of e st sess email password] d r show ?thesis by blast
qed

theorem C9_emails_unique_up_to_case_witness:
  "reachable demo_env demo_registered \<and>
   map u_email (users demo_registered) = [CHR 0xE9 # ''va@example.org''] \<and>
   toLowerCase demo_env (CHR 0xC9 # ''VA@example.org'') = CHR 0xE9 # ''va@example.org'' \<and>
   register demo_env demo_registered \<lparr>sess_userId = None, sess_email = None\<rparr>
       (Some (CHR 0xC9 # ''VA@example.org'')) (Some ''other'') =
     (reply 400 (Error_json ''Email already exists''), demo_registered,
      \<lparr>sess_userId = None, sess_email = None\<rparr>)"
proof -
  have r: "reachable demo_env demo_registered"
    unfolding demo_registered_def by (rule reachable.registered) (rule reachable.started)
  have i: "\<forall>s. toLowerCase demo_env (toLowerCase demo_env s) = toLowerCase demo_env s"
    by (simp add: demo_env_def demo_toLowerCase_idem)
  have l: "toLowerCase demo_env (CHR 0xC9 # ''VA@example.org'') = CHR 0xE9 # ''va@example.org''"
    by (simp add: demo_env_def demo_toLowerCase_def lower_char_def)
  have m: "map u_email (users demo_registered) = [CHR 0xE9 # ''va@example.org'']"
    by (simp add: demo_registered_users)
  have x: "\<exists>x\<in>set (users demo_registered).
      toLowerCase demo_env (u_email x) = toLowerCase demo_env (the (Some (CHR 0xC9 # ''VA@example.org'')))"
    by (simp add: demo_registered_users demo_env_def demo_toLowerCase_def lower_char_def)
  have t: "truthy (Some (CHR 0xC9 # ''VA@example.org'')) \<and> truthy (Some ''other'')"
    by (simp add: truthy_def)
  from C9_emails_unique_up_to_case [OF r i, of "\<lparr>sess_userId = None, sess_email = None\<rparr>"
      "Some (CHR 0xC9 # ''VA@example.org'')" "Some ''other''"] x t
  have "register demo_env demo_registered \<lparr>sess_userId = None, sess_email = None\<rparr>
       (Some (CHR 0xC9 # ''VA@example.org'')) (Some ''other'') =
     (reply 400 (Error_json ''Email already exists''), demo_registered,
      \<lparr>sess_userId = None, sess_email = None\<rparr>)"
    by blast
  with r m l show ?thesis by (intro conjI)
qed

subsection \<open>Which sources a fetch reads\<close>

lemma order_by_desc_filter: "filter P (order_by_desc k xs) = order_by_desc k (filter P xs)"
  by (simp add: order_by_desc_def rev_filter[symmetric] filter_sort)

lemma enabled_sources_alt:
  "enabled_sources st u =
     order_by_desc s_created_at (filter (\<lambda>s. s_user_id s = u \<and> s_enabled s \<noteq> 0) (sources st))"
  by (simp add: enabled_sources_def sourceQueries_findByUser_def order_by_desc_filter conj_commute)

lemma enabled_sources_restrict:
  "enabled_sources (st\<lparr>sources := filter (\<lambda>s. s_user_id s = u \<and> s_enabled s \<noteq> 0) (sources st)\<rparr>) u =
   enabled_sources st u"
  by (simp add: enabled_sources_alt)

lemma create_sources_upd:
  "articleQueries_create e (st\<lparr>sources := X\<rparr>) u sid sn t l sm p =
     (fst (articleQueries_create e st u sid sn t l sm p),
      (snd (articleQueries_create e st u sid sn t l sm p))\<lparr>sources := X\<rparr>)"
  by (simp add: articleQueries_create_def saveDatabase_def split: option.splits)

lemma insert_items_sources_upd:
  "insert_items e u src its (st\<lparr>sources := X\<rparr>) L n =
     (case insert_items e u src its st L n of (r, st', L', n') \<Rightarrow> (r, st'\<lparr>sources := X\<rparr>, L', n'))"
proof (induction its arbitrary: st L n)
  case Nil
  show ?case by simp
next
  case (Cons it its)
  show ?case
    by (simp add: create_sources_upd Cons.IH split: prod.splits sum.splits)
qed

lemma fetchSource_sources_upd [simp]: "fetchSource e (st\<lparr>sources := X\<rparr>) src = fetchSource e st src"
  by (simp add: fetchSource_def)

lemma fetch_sources_sources_upd:
  "fetch_sources e u srcs (st\<lparr>sources := X\<rparr>) L n =
     (case fetch_sources e u srcs st L n of (st', L', n') \<Rightarrow> (st'\<lparr>sources := X\<rparr>, L', n'))"
proof (induction srcs arbitrary: st L n)
  case Nil
  show ?case by simp
next
  case (Cons src srcs)
  show ?case
    by (simp add: insert_items_sources_upd Cons.IH split: prod.splits sum.splits)
qed

lemma prune_sources_upd:
  "prune e (st\<lparr>sources := X\<rparr>) u = (fst (prune e st u), (snd (prune e st u))\<lparr>sources := X\<rparr>)"
  by (simp add: prune_def Let_def articleQueries_deleteOldest_def articleQueries_countByUser_def
      oldest_ids_def saveDatabase_def)

lemma fetchArticles_alt:
  "fetchArticles e st u =
     (if isRunning st then (\<lparr>success = False, message = ''Fetch already in progress''\<rparr>, st)
      else case fetch_sources e u (enabled_sources (st\<lparr>isRunning := True\<rparr>) u) (st\<lparr>isRunning := True\<rparr>)
            (set (map (\<lambda>a. Some (a_link a)) (articleQueries_findByUser (st\<lparr>isRunning := True\<rparr>) u))) 0 of
           (st2, L, newCount) \<Rightarrow>
             (case prune e st2 u of
                (Inl err, st3) \<Rightarrow>
                  (\<lparr>success = False, message = error_message e err\<rparr>, st3\<lparr>isRunning := False\<rparr>)
              | (Inr x, st3) \<Rightarrow>
                  (\<lparr>success = True,
                    message = ''Fetched '' @ dec newCount @ '' new articles. Total: '' @
                              dec (nat (articleQueries_countByUser st3 u))\<rparr>,
                   st3\<lparr>isRunning := False\<rparr>)))"
  by (simp add: fetchArticles_def enabled_sources_def Let_def)

lemma fetchArticles_sources_upd:
  assumes "enabled_sources (st\<lparr>sources := X\<rparr>) u = enabled_sources st u"
  shows "fetchArticles e (st\<lparr>sources := X\<rparr>) u =
           (fst (fetchArticles e st u), (snd (fetchArticles e st u))\<lparr>sources := X\<rparr>)"
proof (cases "isRunning st")
  case True
  then show ?thesis by (simp add: fetchArticles_busy)
next
  case False
  have en: "enabled_sources (st\<lparr>sources := X, isRunning := True\<rparr>) u =
            enabled_sources (st\<lparr>isRunning := True\<rparr>) u"
    using assms by (simp add: enabled_sources_alt)
  have fb: "articleQueries_findByUser (st\<lparr>sources := X, isRunning := True\<rparr>) u =
            articleQueries_findByUser (st\<lparr>isRunning := True\<rparr>) u"
    by (simp add: articleQueries_findByUser_def)
  have sw: "st\<lparr>sources := X, isRunning := True\<rparr> = (st\<lparr>isRunning := True\<rparr>)\<lparr>sources := X\<rparr>"
    by simp
  show ?thesis
    using False
    by (simp add: fetchArticles_alt en fb articleQueries_countByUser_def
        fetch_sources_sources_upd[where st = "st\<lparr>isRunning := True\<rparr>" and X = X, folded sw]
        prune_sources_upd split: prod.splits sum.splits)
qed

lemma create_parseURL_upd [simp]:
  "articleQueries_create (e\<lparr>parseURL := p\<rparr>) st u sid sn t l sm pb =
   articleQueries_create e st u sid sn t l sm pb"
  by (simp add: articleQueries_create_def saveDatabase_def split: option.splits)

lemma insert_items_parseURL_upd [simp]:
  "insert_items (e\<lparr>parseURL := p\<rparr>) u src its st L n = insert_items e u src its st L n"
  by (induction its arbitrary: st L n) (simp_all split: prod.splits sum.splits)

lemma fetch_sources_feed_cong:
  assumes "\<forall>src\<in>set srcs. \<forall>t. p t (s_url src) = parseURL e t (s_url src)"
  shows "fetch_sources (e\<lparr>parseURL := p\<rparr>) u srcs st L n = fetch_sources e u srcs st L n"
  using assms
proof (induction srcs arbitrary: st L n)
  case Nil
  show ?case by simp
next
  case (Cons src srcs)
  then have "fetchSource (e\<lparr>parseURL := p\<rparr>) st src = fetchSource e st src"
    by (simp add: fetchSource_def)
  with Cons show ?case
    by (simp split: prod.splits sum.splits)
qed

lemma prune_parseURL_upd [simp]: "prune (e\<lparr>parseURL := p\<rparr>) st u = prune e st u"
  by (simp add: prune_def articleQueries_deleteOldest_def saveDatabase_def Let_def)

lemma fetchArticles_feed_cong:
  assumes "\<forall>src\<in>set (sources st). s_user_id src = u \<and> s_enabled src \<noteq> 0 \<longrightarrow>
             (\<forall>t. p t (s_url src) = parseURL e t (s_url src))"
  shows "fetchArticles (e\<lparr>parseURL := p\<rparr>) st u = fetchArticles e st u"
proof -
  have "\<forall>src\<in>set (enabled_sources (st\<lparr>isRunning := True\<rparr>) u).
          \<forall>t. p t (s_url src) = parseURL e t (s_url src)"
    using assms enabled_sources_subset[of _ "st\<lparr>isRunning := True\<rparr>" u] by auto
  then show ?thesis
    by (simp add: fetchArticles_alt fetch_sources_feed_cong split: prod.splits sum.splits)
qed

lemma made_from_ids: "made_from e u src it a \<Longrightarrow> a_user_id a = u \<and> a_source_id a = s_id src"
  by (simp add: made_from_def)

text \<open>
  C6: a fetch for u reads the sources table only through the rows that belong to u and are
  enabled. Taking every other row out of the table changes neither its result nor what it
  does to the rest of the state; whatever the parser would answer for URLs that are not
  the URL of such a row does not matter; and every article the fetch adds belongs to u
  and comes from an entry delivered for one of these rows.
\<close>

theorem C6_only_own_enabled_sources:
  "fetchArticles e (st\<lparr>sources := filter (\<lambda>s. s_user_id s = u \<and> s_enabled s \<noteq> 0) (sources st)\<rparr>) u =
     (fst (fetchArticles e st u),
      (snd (fetchArticles e st u))
        \<lparr>sources := filter (\<lambda>s. s_user_id s = u \<and> s_enabled s \<noteq> 0) (sources st)\<rparr>) \<and>
   ((\<forall>src\<in>set (sources st). s_user_id src = u \<and> s_enabled src \<noteq> 0 \<longrightarrow>
        (\<forall>t. p t (s_url src) = parseURL e t (s_url src))) \<longrightarrow>
      fetchArticles (e\<lparr>parseURL := p\<rparr>) st u = fetchArticles e st u) \<and>
   (\<forall>a\<in>set (articles (snd (fetchArticles e st u))).
      a \<in> set (articles st) \<or>
      (a_user_id a = u \<and>
       (\<exists>src\<in>set (sources st). s_user_id src = u \<and> s_enabled src \<noteq> 0 \<and>
          a_source_id a = s_id src \<and> from_feed e u src a)))"
proof -
  have "a \<in> set (articles st) \<or>
      (a_user_id a = u \<and>
       (\<exists>src\<in>set (sources st). s_user_id src = u \<and> s_enabled src \<noteq> 0 \<and>
          a_source_id a = s_id src \<and> from_feed e u src a))"
    if a: "a \<in> set (articles (snd (fetchArticles e st u)))" for a
  proof (cases "a \<in> set (articles st)")
    case True
    then show ?thesis by simp
  next
    case False
    from fetchArticles_new_articles[OF a False] obtain src where
      s: "src \<in> set (sources st)" "s_user_id src = u" "s_enabled src \<noteq> 0" "from_feed e u src a"
      by blast
    from s(4) have "a_user_id a = u \<and> a_source_id a = s_id src"
      unfolding from_feed_def using made_from_ids by blast
    with s show ?thesis by blast
  qed
  then show ?thesis
    using fetchArticles_sources_upd[OF enabled_sources_restrict, where e = e and st = st and u = u]
      fetchArticles_feed_cong[where e = e and st = st and u = u and p = p]
    by blast
qed

theorem C6_only_own_enabled_sources_witness:
  "filter (\<lambda>s. s_user_id s = ''bob'' \<and> s_enabled s \<noteq> 0) (sources demo_mixed) = [demo_source] \<and>
   demo_flood 0 ''https://news.example/rss'' = parseURL demo_env 0 ''https://news.example/rss'' \<and>
   demo_flood 0 ''https://off.example/rss'' \<noteq> parseURL demo_env 0 ''https://off.example/rss'' \<and>
   fetchArticles (demo_env\<lparr>parseURL := demo_flood\<rparr>) demo_mixed ''bob'' =
     fetchArticles demo_env demo_mixed ''bob'' \<and>
   articles (snd (fetchArticles (demo_env\<lparr>parseURL := demo_flood\<rparr>) demo_mixed ''bob'')) =
     articles (snd (fetchArticles demo_env demo_state ''bob'')) \<and>
   length (articles (snd (fetchArticles (demo_env\<lparr>parseURL := demo_flood\<rparr>) demo_mixed ''bob''))) = 2"
proof -
  have f: "filter (\<lambda>s. s_user_id s = ''bob'' \<and> s_enabled s \<noteq> 0) (sources demo_mixed) = [demo_source]"
    by (simp add: demo_mixed_def demo_state_def demo_source_def)
  have m: "demo_state\<lparr>sources := [demo_source]\<rparr> = demo_state"
    by (simp add: demo_state_def)
  have p: "\<forall>src\<in>set (sources demo_mixed). s_user_id src = ''bob'' \<and> s_enabled src \<noteq> 0 \<longrightarrow>
        (\<forall>t. demo_flood t (s_url src) = parseURL demo_env t (s_url src))"
    by (simp add: demo_mixed_def demo_state_def demo_source_def demo_flood_def demo_env_def)
  have d: "demo_flood 0 ''https://off.example/rss'' \<noteq> parseURL demo_env 0 ''https://off.example/rss''"
    by (simp add: demo_flood_def demo_env_def)
  have s: "demo_mixed\<lparr>sources := [demo_source]\<rparr> = demo_state"
    by (simp add: demo_mixed_def demo_state_def)
  from C6_only_own_enabled_sources [where e = demo_env and st = demo_mixed and u = "''bob''"
      and p = demo_flood] f p s
  have "fetchArticles (demo_env\<lparr>parseURL := demo_flood\<rparr>) demo_mixed ''bob'' =
          fetchArticles demo_env demo_mixed ''bob''"
    and "fetchArticles demo_env demo_state ''bob'' =
          (fst (fetchArticles demo_env demo_mixed ''bob''),
           (snd (fetchArticles demo_env demo_mixed ''bob''))\<lparr>sources := [demo_source]\<rparr>)"
    by simp_all
  then have same: "fetchArticles (demo_env\<lparr>parseURL := demo_flood\<rparr>) demo_mixed ''bob'' =
          fetchArticles demo_env demo_mixed ''bob''"
    and arts0: "articles (snd (fetchArticles demo_env demo_state ''bob'')) =
          articles (snd (fetchArticles demo_env demo_mixed ''bob''))"
    by simp_all
  from arts0 have arts: "articles (snd (fetchArticles demo_env demo_mixed ''bob'')) =
          articles (snd (fetchArticles demo_env demo_state ''bob''))"
    by (rule sym)
  have len: "length (articles (snd (fetchArticles demo_env demo_mixed ''bob''))) = 2"
    unfolding arts demo_run by simp
  have n: "demo_flood 0 ''https://news.example/rss'' =
      parseURL demo_env 0 ''https://news.example/rss''"
    by (simp add: demo_flood_def demo_env_def)
  show ?thesis
    unfolding same by (intro conjI f n d arts len refl)
qed

subsection \<open>Pruning\<close>

lemma next_rowid_fresh: "i \<in> set ids \<Longrightarrow> i < next_rowid s ids"
  by (induction ids) (auto simp: next_rowid_def)

lemma create_distinct_ids:
  assumes "distinct (map a_id (articles st))"
  shows "distinct (map a_id (articles (snd (articleQueries_create e st u sid sn t l sm p))))"
proof -
  from create_articles[of e st u sid sn t l sm p]
  consider "articles (snd (articleQueries_create e st u sid sn t l sm p)) = articles st"
    | a where "articles (snd (articleQueries_create e st u sid sn t l sm p)) = articles st @ [a]"
        "a_id a = next_rowid (articles_seq st) (map a_id (articles st))"
    by blast
  then show ?thesis
  proof cases
    case 1
    with assms show ?thesis by simp
  next
    case 2
    have "a_id a \<notin> set (map a_id (articles st))"
      using next_rowid_fresh[of "a_id a" "map a_id (articles st)" "articles_seq st"] 2(2) by auto
    with 2 assms show ?thesis by simp
  qed
qed

lemma insert_items_distinct_ids:
  "distinct (map a_id (articles st)) \<Longrightarrow>
   distinct (map a_id (articles (fst (snd (insert_items e u src its st L n)))))"
proof (induction its arbitrary: st L n)
  case Nil
  then show ?case by simp
next
  case (Cons it its)
  let ?c = "articleQueries_create e st u (s_id src) (s_name src) (it_title it) (it_link it)
              (summarizeArticle (Some (it_content it))) (it_published it)"
  from Cons.prems have d: "distinct (map a_id (articles (snd ?c)))"
    by (rule create_distinct_ids)
  obtain r st1 where c: "?c = (r, st1)" by (cases ?c)
  with d have d1: "distinct (map a_id (articles st1))" by simp
  show ?case
  proof (cases "it_link it \<in> L")
    case True
    with Cons show ?thesis by simp
  next
    case False
    with c d1 Cons.IH[OF d1] show ?thesis
      by (cases r) simp_all
  qed
qed

lemma fetch_sources_distinct_ids:
  "distinct (map a_id (articles st)) \<Longrightarrow>
   distinct (map a_id (articles (fst (fetch_sources e u srcs st L n))))"
proof (induction srcs arbitrary: st L n)
  case Nil
  then show ?case by simp
next
  case (Cons src srcs)
  show ?case
  proof (cases "fetchSource e st src")
    case (Inl err)
    with Cons show ?thesis by simp
  next
    case (Inr items)
    obtain r st1 L1 n1 where i: "insert_items e u src items st L n = (r, st1, L1, n1)"
      by (cases "insert_items e u src items st L n") auto
    from insert_items_distinct_ids[OF Cons.prems, of e u src items L n] i
    have "distinct (map a_id (articles st1))" by simp
    from Cons.IH[OF this] Inr i show ?thesis by simp
  qed
qed

lemma after_insertions_distinct_ids:
  "distinct (map a_id (articles st)) \<Longrightarrow> distinct (map a_id (articles (after_insertions e st u)))"
  unfolding after_insertions_def by (rule fetch_sources_distinct_ids) simp

lemma length_filter_removed:
  assumes "distinct xs" "distinct D" "set D \<subseteq> set xs"
  shows "length (filter (\<lambda>a. a \<notin> set D) xs) + length D = length xs"
proof -
  have "{a. a \<notin> set D} \<inter> set xs = set xs - set D" by auto
  with assms(1) have "length (filter (\<lambda>a. a \<notin> set D) xs) = card (set xs - set D)"
    by (simp add: distinct_length_filter)
  also have "\<dots> = card (set xs) - card (set D)"
    using assms(3) by (simp add: card_Diff_subset)
  finally have "length (filter (\<lambda>a. a \<notin> set D) xs) = length xs - length D"
    using assms by (simp add: distinct_card)
  moreover have "length D \<le> length xs"
    using assms card_mono[of "set xs" "set D"] by (simp add: distinct_card)
  ultimately show ?thesis by simp
qed

lemma pruned_rows_props:
  assumes "distinct (map a_id (articles st))"
  shows "distinct (pruned_rows st u)"
    and "set (pruned_rows st u) \<subseteq> {a \<in> set (articles st). a_user_id a = u}"
    and "length (pruned_rows st u) = nat (articleQueries_countByUser st u - MAX_ARTICLES)"
proof -
  let ?own = "filter (\<lambda>a. a_user_id a = u) (articles st)"
  from assms have d: "distinct (articles st)" by (simp add: distinct_map)
  then have "distinct (sort_key a_fetched_at ?own)" by simp
  then show "distinct (pruned_rows st u)" by (simp add: pruned_rows_def)
  have "set (pruned_rows st u) \<subseteq> set (sort_key a_fetched_at ?own)"
    unfolding pruned_rows_def by (rule set_take_subset)
  then show "set (pruned_rows st u) \<subseteq> {a \<in> set (articles st). a_user_id a = u}" by auto
  show "length (pruned_rows st u) = nat (articleQueries_countByUser st u - MAX_ARTICLES)"
    by (simp add: pruned_rows_def articleQueries_countByUser_def MAX_ARTICLES_def)
qed

lemma pruned_rows_oldest:
  assumes "d \<in> set (pruned_rows st u)" "k \<in> set (articles st)" "a_user_id k = u"
    "k \<notin> set (pruned_rows st u)"
  shows "a_fetched_at d \<le> a_fetched_at k"
proof -
  let ?s = "sort_key a_fetched_at (filter (\<lambda>a. a_user_id a = u) (articles st))"
  let ?n = "nat (articleQueries_countByUser st u - MAX_ARTICLES)"
  have "sorted (map a_fetched_at (take ?n ?s @ drop ?n ?s))"
    by (simp only: append_take_drop_id sorted_sort_key)
  then have *: "\<forall>x\<in>set (take ?n ?s). \<forall>y\<in>set (drop ?n ?s). a_fetched_at x \<le> a_fetched_at y"
    unfolding map_append sorted_append by auto
  have "set ?s = set (take ?n ?s) \<union> set (drop ?n ?s)"
    by (metis append_take_drop_id set_append)
  moreover from assms(2,3) have "k \<in> set ?s" by simp
  moreover from assms(4) have "k \<notin> set (take ?n ?s)" by (simp add: pruned_rows_def)
  ultimately have "k \<in> set (drop ?n ?s)" by blast
  moreover from assms(1) have "d \<in> set (take ?n ?s)" by (simp add: pruned_rows_def)
  ultimately show ?thesis using * by blast
qed

lemma prune_by_rows:
  assumes "distinct (map a_id (articles st))"
  shows "articles (snd (prune e st u)) = filter (\<lambda>a. a \<notin> set (pruned_rows st u)) (articles st)"
proof (cases "articleQueries_countByUser st u > MAX_ARTICLES")
  case True
  have ids: "oldest_ids st u (articleQueries_countByUser st u - MAX_ARTICLES) = map a_id (pruned_rows st u)"
    using True by (simp add: oldest_ids_def pruned_rows_def)
  have "a_id a \<notin> set (map a_id (pruned_rows st u)) \<longleftrightarrow> a \<notin> set (pruned_rows st u)"
    if "a \<in> set (articles st)" for a
  proof -
    from assms have "inj_on a_id (set (articles st))" by (simp add: distinct_map)
    with that pruned_rows_props(2)[OF assms, of u] show ?thesis
      by (auto simp: inj_on_def)
  qed
  then have "filter (\<lambda>a. a_id a \<notin> set (map a_id (pruned_rows st u))) (articles st) =
             filter (\<lambda>a. a \<notin> set (pruned_rows st u)) (articles st)"
    by (intro filter_cong) auto
  with True ids show ?thesis by (simp add: prune_articles)
next
  case False
  then have "pruned_rows st u = []" by (simp add: pruned_rows_def)
  with False show ?thesis by (simp add: prune_articles)
qed

text \<open>
  C2: when a fetch for u has done its insertions, the rows taken away are rows of u, each
  once, and no row taken away has a fetched_at greater than that of a row of u that
  stays; nothing else changes in the table. If u has more than 200 articles then, exactly
  (count - 200) rows are taken away and u is left with 200; with at most 200 none is.
  (Article ids are the primary key: the statement is for tables with distinct ids, which
  all reachable tables are.)
\<close>

theorem C2_prune_to_ceiling:
  fixes e :: env and st :: state and u :: string
  defines "st2 \<equiv> after_insertions e st u"
    and "st' \<equiv> snd (fetchArticles e st u)"
  assumes ids: "distinct (map a_id (articles st))" and idle: "\<not> isRunning st"
  shows "articles st' = filter (\<lambda>a. a \<notin> set (pruned_rows st2 u)) (articles st2) \<and>
         distinct (pruned_rows st2 u) \<and>
         set (pruned_rows st2 u) \<subseteq> {a \<in> set (articles st2). a_user_id a = u} \<and>
         length (articles st') + length (pruned_rows st2 u) = length (articles st2) \<and>
         (\<forall>d\<in>set (pruned_rows st2 u). \<forall>k\<in>set (articles st').
            a_user_id k = u \<longrightarrow> a_fetched_at d \<le> a_fetched_at k) \<and>
         (articleQueries_countByUser st2 u > 200 \<longrightarrow>
            int (length (pruned_rows st2 u)) = articleQueries_countByUser st2 u - 200 \<and>
            articleQueries_countByUser st' u = 200) \<and>
         (articleQueries_countByUser st2 u \<le> 200 \<longrightarrow>
            pruned_rows st2 u = [] \<and> articles st' = articles st2)"
proof -
  let ?D = "pruned_rows st2 u"
  let ?own = "filter (\<lambda>a. a_user_id a = u) (articles st2)"
  have ids2: "distinct (map a_id (articles st2))"
    unfolding st2_def using ids by (rule after_insertions_distinct_ids)
  then have d2: "distinct (articles st2)" by (simp add: distinct_map)
  have arts: "articles st' = filter (\<lambda>a. a \<notin> set ?D) (articles st2)"
    unfolding st'_def st2_def
    using prune_by_rows[OF ids2[unfolded st2_def], of e u]
    by (simp add: fetchArticles_state[OF idle])
  note props = pruned_rows_props[OF ids2, of u]
  have sub: "set ?D \<subseteq> set (articles st2)" using props(2) by auto
  have len: "length (articles st') + length ?D = length (articles st2)"
    unfolding arts using d2 props(1) sub by (rule length_filter_removed)
  have old: "a_fetched_at d \<le> a_fetched_at k"
    if "d \<in> set ?D" "k \<in> set (articles st')" "a_user_id k = u" for d k
  proof -
    from that(2) have "k \<in> set (articles st2)" "k \<notin> set ?D" by (simp_all add: arts)
    with that show ?thesis using pruned_rows_oldest[of d st2 u k] by simp
  qed
  have own: "filter (\<lambda>a. a_user_id a = u) (articles st') = filter (\<lambda>a. a \<notin> set ?D) ?own"
    unfolding arts filter_filter by (rule filter_cong) auto
  have "length (filter (\<lambda>a. a \<notin> set ?D) ?own) + length ?D = length ?own"
    using d2 props(1,2) by (intro length_filter_removed) auto
  then have cnt: "articleQueries_countByUser st' u + int (length ?D) = articleQueries_countByUser st2 u"
    unfolding articleQueries_countByUser_def own by linarith
  have big: "int (length ?D) = articleQueries_countByUser st2 u - 200 \<and>
             articleQueries_countByUser st' u = 200"
    if "articleQueries_countByUser st2 u > 200"
    using that cnt props(3) by (simp add: MAX_ARTICLES_def)
  have small: "?D = [] \<and> articles st' = articles st2"
    if "articleQueries_countByUser st2 u \<le> 200"
  proof -
    from that props(3) have "?D = []" by (simp add: MAX_ARTICLES_def)
    with arts show ?thesis by simp
  qed
  from arts props(1,2) len old big small show ?thesis by blast
qed

lemma demo_full_ids: "distinct (map a_id (articles demo_full))"
  by (simp add: demo_full_def demo_article_def distinct_map comp_def inj_on_def)

theorem C2_prune_to_ceiling_witness:
  "distinct (map a_id (articles demo_full)) \<and> \<not> isRunning demo_full \<and>
   articleQueries_countByUser (after_insertions demo_env demo_full ''bob'') ''bob'' = 201 \<and>
   length (pruned_rows (after_insertions demo_env demo_full ''bob'') ''bob'') = 1 \<and>
   articleQueries_countByUser (snd (fetchArticles demo_env demo_full ''bob'')) ''bob'' = 200 \<and>
   length (articles (snd (fetchArticles demo_env demo_full ''bob''))) = 200 \<and>
   distinct (map a_id (articles demo_state)) \<and> \<not> isRunning demo_state \<and>
   articleQueries_countByUser (after_insertions demo_env demo_state ''bob'') ''bob'' \<le> 200 \<and>
   articles (snd (fetchArticles demo_env demo_state ''bob'')) =
     articles (after_insertions demo_env demo_state ''bob'')"
proof -
  have i: "\<not> isRunning demo_full" "\<not> isRunning demo_state"
    by (simp_all add: demo_full_def demo_state_def)
  have c: "articleQueries_countByUser (after_insertions demo_env demo_full ''bob'') ''bob'' = 201"
    by (simp add: demo_full_after demo_full_count)
  have l: "length (articles (after_insertions demo_env demo_full ''bob'')) = 201"
    unfolding demo_full_after by (simp add: demo_full_def)
  have s: "distinct (map a_id (articles demo_state))" by (simp add: demo_state_def)
  have c2: "articleQueries_countByUser (after_insertions demo_env demo_state ''bob'') ''bob'' \<le> 200"
    by (simp add: after_insertions_def enabled_sources_def demo_state_def demo_env_def
      demo_source_def demo_feed_def
      sourceQueries_findByUser_def articleQueries_findByUser_def order_by_desc_def
      fetchSource_def item_of_def truthy_def summarizeArticle_def articleQueries_create_def
      saveDatabase_def next_rowid_def articleQueries_countByUser_def)
  from C2_prune_to_ceiling [OF demo_full_ids i(1), of demo_env "''bob''"] c l
       C2_prune_to_ceiling [OF s i(2), of demo_env "''bob''"] c2
  show ?thesis
    using demo_full_ids i s by auto
qed

subsection \<open>The regular expressions\<close>

lemma nullable_lang: "nullable r \<longleftrightarrow> [] \<in> lang i r"
  by (induction r) (auto intro: star.empty)

lemma star_cons:
  "c # w \<in> star A \<longleftrightarrow> (\<exists>u v. w = u @ v \<and> c # u \<in> A \<and> v \<in> star A)"
proof
  assume "c # w \<in> star A"
  then show "\<exists>u v. w = u @ v \<and> c # u \<in> A \<and> v \<in> star A"
  proof (induction "c # w" arbitrary: w rule: star.induct)
    case (more u v)
    show ?case
    proof (cases u)
      case Nil
      with more show ?thesis by simp
    next
      case (Cons a u')
      with more.hyps show ?thesis by auto
    qed
  qed
next
  assume "\<exists>u v. w = u @ v \<and> c # u \<in> A \<and> v \<in> star A"
  then obtain u v where "w = u @ v" "c # u \<in> A" "v \<in> star A" by blast
  then show "c # w \<in> star A" using star.more[of "c # u" A v] by simp
qed

lemma cons_append_iff:
  "c # w = u @ v \<longleftrightarrow> (u = [] \<and> v = c # w) \<or> (\<exists>u'. u = c # u' \<and> w = u' @ v)"
  by (cases u) auto

lemma after_lang: "w \<in> lang i (after i c r) \<longleftrightarrow> c # w \<in> lang i r"
proof (induction r arbitrary: w)
  case (Seq r s)
  show ?case
  proof
    assume "w \<in> lang i (after i c (Seq r s))"
    then consider u v where "w = u @ v" "u \<in> lang i (after i c r)" "v \<in> lang i s"
      | "nullable r" "w \<in> lang i (after i c s)"
      by (auto split: if_splits)
    then show "c # w \<in> lang i (Seq r s)"
    proof cases
      case 1
      then have "c # u \<in> lang i r" by (simp add: Seq.IH)
      with 1 have "(c # u) @ v \<in> lang i (Seq r s)" by (simp del: append_Cons) blast
      with 1 show ?thesis by simp
    next
      case 2
      then have "[] \<in> lang i r" "c # w \<in> lang i s" by (simp_all add: nullable_lang[of r i] Seq.IH)
      then have "[] @ (c # w) \<in> lang i (Seq r s)" by (simp del: append_Nil) blast
      then show ?thesis by simp
    qed
  next
    assume "c # w \<in> lang i (Seq r s)"
    then obtain u v where uv: "c # w = u @ v" "u \<in> lang i r" "v \<in> lang i s" by auto
    from uv(1) consider "u = []" "v = c # w" | u' where "u = c # u'" "w = u' @ v"
      by (auto simp: cons_append_iff)
    then show "w \<in> lang i (after i c (Seq r s))"
    proof cases
      case 1
      with uv have "nullable r" "w \<in> lang i (after i c s)"
        by (simp_all add: nullable_lang[of r i] Seq.IH)
      then show ?thesis by simp
    next
      case 2
      with uv have "u' \<in> lang i (after i c r)" by (simp add: Seq.IH)
      with 2 uv(3) show ?thesis by auto
    qed
  qed
next
  case (Plus r)
  show ?case
  proof
    assume "w \<in> lang i (after i c (Plus r))"
    then obtain u v where "w = u @ v" "u \<in> lang i (after i c r)" "v \<in> star (lang i r)" by auto
    then have "(c # u) @ v \<in> lang i (Plus r)" "c # w = (c # u) @ v"
      by (auto simp: Plus.IH simp del: append_Cons)
    then show "c # w \<in> lang i (Plus r)" by simp
  next
    assume "c # w \<in> lang i (Plus r)"
    then obtain u v where uv: "c # w = u @ v" "u \<in> lang i r" "v \<in> star (lang i r)" by auto
    from uv(1) consider "u = []" "v = c # w" | u' where "u = c # u'" "w = u' @ v"
      by (auto simp: cons_append_iff)
    then show "w \<in> lang i (after i c (Plus r))"
    proof cases
      case 1
      with uv(3) obtain x y where "w = x @ y" "c # x \<in> lang i r" "y \<in> star (lang i r)"
        by (auto simp: star_cons)
      then show ?thesis by (auto simp: Plus.IH)
    next
      case 2
      with uv show ?thesis by (auto simp: Plus.IH)
    qed
  qed
next
  case (Star r)
  show ?case by (auto simp: star_cons Star.IH)
qed auto

lemma matches_lang: "matches i r s \<longleftrightarrow> s \<in> lang i r"
proof -
  have "nullable (foldl (\<lambda>q c. after i c q) r s) \<longleftrightarrow> s \<in> lang i r" for r
    by (induction s arbitrary: r) (simp_all add: nullable_lang[of _ i] after_lang)
  then show ?thesis by (simp add: matches_def)
qed

lemma star_any: "s \<in> star (lang i Any)"
proof (induction s)
  case Nil
  show ?case by (rule star.empty)
next
  case (Cons a s)
  then show ?case using star.more[of "[a]" "lang i Any" s] by simp
qed

lemma star_digit: "s \<in> star {[c] |c. is_digit c} \<longleftrightarrow> list_all is_digit s"
proof
  assume "s \<in> star {[c] |c. is_digit c}"
  then show "list_all is_digit s" by (induction rule: star.induct) auto
next
  assume "list_all is_digit s"
  then show "s \<in> star {[c] |c. is_digit c}"
  proof (induction s)
    case Nil
    show ?case by (rule star.empty)
  next
    case (Cons a s)
    then show ?case using star.more[of "[a]" "{[c] |c. is_digit c}" s] by simp
  qed
qed

lemma in_plus_digit: "s \<in> lang i (Plus Digit) \<longleftrightarrow> digits s"
proof
  assume "s \<in> lang i (Plus Digit)"
  then show "digits s" by (auto simp: digits_def star_digit)
next
  assume "digits s"
  then obtain c w where "s = c # w" "is_digit c" "list_all is_digit w"
    by (cases s) (auto simp: digits_def)
  then have "s = [c] @ w" "[c] \<in> lang i Digit" "w \<in> star (lang i Digit)"
    by (simp_all add: star_digit)
  then show "s \<in> lang i (Plus Digit)" unfolding lang.simps by blast
qed

lemma in_seq: "s \<in> lang i (Seq r t) \<longleftrightarrow> (\<exists>u v. s = u @ v \<and> u \<in> lang i r \<and> v \<in> lang i t)"
  by auto

lemma in_seq_lit:
  "s \<in> lang i (Seq (Lit a) t) \<longleftrightarrow>
     (\<exists>c v. s = c # v \<and> (if i then lower_char c = lower_char a else c = a) \<and> v \<in> lang i t)"
proof
  assume "s \<in> lang i (Seq (Lit a) t)"
  then obtain u v where "s = u @ v" "u \<in> lang i (Lit a)" "v \<in> lang i t"
    unfolding in_seq by blast
  then show "\<exists>c v. s = c # v \<and> (if i then lower_char c = lower_char a else c = a) \<and> v \<in> lang i t"
    by auto
next
  assume "\<exists>c v. s = c # v \<and> (if i then lower_char c = lower_char a else c = a) \<and> v \<in> lang i t"
  then obtain c v where "s = [c] @ v" "[c] \<in> lang i (Lit a)" "v \<in> lang i t" by auto
  then show "s \<in> lang i (Seq (Lit a) t)" unfolding in_seq by blast
qed

lemma in_seq_one: "s \<in> lang i (Seq r One) \<longleftrightarrow> s \<in> lang i r"
  by simp

lemma in_word_gen:
  "s \<in> lang i (word w) \<longleftrightarrow> (if i then map lower_char s = map lower_char w else s = w)"
proof (induction w arbitrary: s)
  case Nil
  show ?case by simp
next
  case (Cons a w)
  show ?case
    unfolding word.simps in_seq_lit Cons.IH by (cases s) auto
qed

lemma in_word: "s \<in> lang False (word w) \<longleftrightarrow> s = w"
  by (simp add: in_word_gen)

lemma in_word_i: "s \<in> lang True (word w) \<longleftrightarrow> map lower_char s = map lower_char w"
  by (simp add: in_word_gen)

lemma in_seq_word: "s \<in> lang False (Seq (word w) t) \<longleftrightarrow> (\<exists>v. s = w @ v \<and> v \<in> lang False t)"
  unfolding in_seq in_word by blast

lemma lang_star_any: "lang i (Star Any) = UNIV"
  using star_any by auto

lemma in_seq_digits:
  "s \<in> lang i (Seq (Plus Digit) t) \<longleftrightarrow> (\<exists>b v. s = b @ v \<and> digits b \<and> v \<in> lang i t)"
  unfolding in_seq in_plus_digit ..

lemma test_lang:
  "test re s \<longleftrightarrow>
     (\<exists>p m q. s = p @ m @ q \<and> (from_start re \<longrightarrow> p = []) \<and> (to_end re \<longrightarrow> q = []) \<and>
        m \<in> lang (ignore_case re) (pattern re))"
proof -
  let ?i = "ignore_case re"
  let ?P = "if from_start re then One else Star Any"
  let ?Q = "if to_end re then One else Star Any"
  have P: "p \<in> lang ?i ?P \<longleftrightarrow> (from_start re \<longrightarrow> p = [])" for p
    by (simp add: lang_star_any del: lang.simps(10))
  have Q: "q \<in> lang ?i ?Q \<longleftrightarrow> (to_end re \<longrightarrow> q = [])" for q
    by (simp add: lang_star_any del: lang.simps(10))
  have "test re s \<longleftrightarrow> (\<exists>p v. s = p @ v \<and> p \<in> lang ?i ?P \<and>
          (\<exists>m q. v = m @ q \<and> m \<in> lang ?i (pattern re) \<and> q \<in> lang ?i ?Q))"
    unfolding test_def matches_lang in_seq ..
  also have "\<dots> \<longleftrightarrow> (\<exists>p m q. s = p @ m @ q \<and> (from_start re \<longrightarrow> p = []) \<and>
        (to_end re \<longrightarrow> q = []) \<and> m \<in> lang ?i (pattern re))"
    unfolding P Q by blast
  finally show ?thesis .
qed

lemma test_anchored: "test (anchored r) s \<longleftrightarrow> s \<in> lang False r"
  by (simp add: test_lang anchored_def)

lemma test_anchored_i: "test ((anchored r)\<lparr>ignore_case := True\<rparr>) s \<longleftrightarrow> s \<in> lang True r"
  by (simp add: test_lang anchored_def)

lemma char_codes:
  "char_of (48::nat) = CHR ''0''" "char_of (49::nat) = CHR ''1''" "char_of (50::nat) = CHR ''2''"
  "char_of (51::nat) = CHR ''3''" "char_of (52::nat) = CHR ''4''" "char_of (53::nat) = CHR ''5''"
  "char_of (54::nat) = CHR ''6''" "char_of (55::nat) = CHR ''7''" "char_of (56::nat) = CHR ''8''"
  "char_of (57::nat) = CHR ''9''"
  by code_simp+

lemma char_of_code: "(of_char c :: nat) = k \<Longrightarrow> c = char_of k"
  by auto

lemma is_digit_iff: "is_digit c \<longleftrightarrow> c \<in> set ''0123456789''"
proof
  assume "is_digit c"
  then have "(48::nat) \<le> of_char c \<and> of_char c \<le> (57::nat)"
    by (simp add: is_digit_def less_eq_char_def)
  then have "(of_char c :: nat) = 48 \<or> (of_char c :: nat) = 49 \<or> (of_char c :: nat) = 50 \<or>
      (of_char c :: nat) = 51 \<or> (of_char c :: nat) = 52 \<or> (of_char c :: nat) = 53 \<or>
      (of_char c :: nat) = 54 \<or> (of_char c :: nat) = 55 \<or> (of_char c :: nat) = 56 \<or>
      (of_char c :: nat) = 57"
    by arith
  then have "c = char_of (48::nat) \<or> c = char_of (49::nat) \<or> c = char_of (50::nat) \<or>
      c = char_of (51::nat) \<or> c = char_of (52::nat) \<or> c = char_of (53::nat) \<or>
      c = char_of (54::nat) \<or> c = char_of (55::nat) \<or> c = char_of (56::nat) \<or>
      c = char_of (57::nat)"
    using char_of_code[of c] by blast
  then show "c \<in> set ''0123456789''"
    unfolding char_codes by simp
next
  assume "c \<in> set ''0123456789''"
  then show "is_digit c" by (auto simp: is_digit_def)
qed

lemma range_6_9: "CHR ''6'' \<le> c \<and> c \<le> CHR ''9'' \<longleftrightarrow> c \<in> set ''6789''"
proof
  assume a: "CHR ''6'' \<le> c \<and> c \<le> CHR ''9''"
  have "CHR ''0'' \<le> CHR ''6''" by simp
  with a have "CHR ''0'' \<le> c" by (blast intro: order_trans)
  with a have "is_digit c" by (simp add: is_digit_def)
  then have "c \<in> set ''0123456789''" by (simp only: is_digit_iff)
  with a show "c \<in> set ''6789''" by auto
next
  assume "c \<in> set ''6789''"
  then show "CHR ''6'' \<le> c \<and> c \<le> CHR ''9''" by auto
qed

lemma in_seq_lit_app:
  "s \<in> lang False (Seq (Lit a) t) \<longleftrightarrow> (\<exists>v. s = [a] @ v \<and> v \<in> lang False t)"
  by (simp add: in_seq_lit)

lemma tail3:
  "s \<in> lang False (Seq dot (Seq (Plus Digit) (Seq dot (Seq (Plus Digit) (Seq dot (Plus Digit)))))) \<longleftrightarrow>
   (\<exists>b c d. s = ''.'' @ b @ ''.'' @ c @ ''.'' @ d \<and> digits b \<and> digits c \<and> digits d)"
  unfolding dot_def in_seq_lit_app in_seq_digits in_plus_digit by blast

lemma tail2:
  "s \<in> lang False (Seq dot (Seq (Plus Digit) (Seq dot (Plus Digit)))) \<longleftrightarrow>
   (\<exists>c d. s = ''.'' @ c @ ''.'' @ d \<and> digits c \<and> digits d)"
  unfolding dot_def in_seq_lit_app in_seq_digits in_plus_digit by blast

lemma in_range_6_9: "v \<in> lang False (Range CHR ''6'' CHR ''9'') \<longleftrightarrow> v \<in> set [''6'', ''7'', ''8'', ''9'']"
proof -
  have "v \<in> lang False (Range CHR ''6'' CHR ''9'') \<longleftrightarrow> (\<exists>c. v = [c] \<and> c \<in> set ''6789'')"
    unfolding lang.simps range_6_9[symmetric] by blast
  also have "\<dots> \<longleftrightarrow> v \<in> set [''6'', ''7'', ''8'', ''9'']" by auto
  finally show ?thesis .
qed

lemma in_digit: "v \<in> lang False Digit \<longleftrightarrow> v \<in> (\<lambda>c. [c]) ` set ''0123456789''"
proof -
  have "v \<in> lang False Digit \<longleftrightarrow> (\<exists>c. v = [c] \<and> c \<in> set ''0123456789'')"
    unfolding lang.simps is_digit_iff[symmetric] by blast
  also have "\<dots> \<longleftrightarrow> v \<in> (\<lambda>c. [c]) ` set ''0123456789''"
    by blast
  finally show ?thesis .
qed

lemma in_0_1: "v \<in> lang False (Alt (Lit CHR ''0'') (Lit CHR ''1'')) \<longleftrightarrow> v \<in> set [''0'', ''1'']"
  by auto

lemma second_octet:
  "m \<in> lang False (Alt (Seq (Lit CHR ''1'') (Range CHR ''6'' CHR ''9''))
               (Alt (Seq (Lit CHR ''2'') Digit)
                    (Seq (Lit CHR ''3'') (Alt (Lit CHR ''0'') (Lit CHR ''1''))))) \<longleftrightarrow>
   m \<in> set [''16'', ''17'', ''18'', ''19'', ''20'', ''21'', ''22'', ''23'', ''24'', ''25'',
             ''26'', ''27'', ''28'', ''29'', ''30'', ''31'']"
  unfolding lang.simps(8) Un_iff in_seq_lit_app in_range_6_9 in_digit in_0_1
  by (simp add: ex_disj_distrib conj_disj_distribL)

lemma in_seq_word_gen:
  "s \<in> lang i (Seq (word w) t) \<longleftrightarrow>
     (\<exists>u v. s = u @ v \<and> (if i then map lower_char u = map lower_char w else u = w) \<and> v \<in> lang i t)"
  unfolding in_seq in_word_gen ..

lemma quad_pattern:
  "test (anchored (Seq (word a) (Seq dot (Seq (Plus Digit) (Seq dot (Seq (Plus Digit)
        (Seq dot (Plus Digit)))))))) h \<longleftrightarrow>
   (\<exists>b c d. h = dotted [a, b, c, d] \<and> digits b \<and> digits c \<and> digits d)"
  unfolding test_anchored in_seq_word tail3 dotted.simps by blast

lemma in_seq_dot: "s \<in> lang False (Seq dot t) \<longleftrightarrow> (\<exists>v. s = ''.'' @ v \<and> v \<in> lang False t)"
  unfolding dot_def by (rule in_seq_lit_app)

lemma pattern_172:
  "test (anchored (Seq (word ''172'') (Seq dot
        (Seq (Alt (Seq (Lit CHR ''1'') (Range CHR ''6'' CHR ''9''))
               (Alt (Seq (Lit CHR ''2'') Digit)
                    (Seq (Lit CHR ''3'') (Alt (Lit CHR ''0'') (Lit CHR ''1'')))))
          (Seq dot (Seq (Plus Digit) (Seq dot (Plus Digit)))))))) h \<longleftrightarrow>
   (\<exists>b c d. h = dotted [''172'', b, c, d] \<and>
        b \<in> set [''16'', ''17'', ''18'', ''19'', ''20'', ''21'', ''22'', ''23'', ''24'', ''25'',
                  ''26'', ''27'', ''28'', ''29'', ''30'', ''31''] \<and>
        digits c \<and> digits d)"
proof -
  let ?alt = "Alt (Seq (Lit CHR ''1'') (Range CHR ''6'' CHR ''9''))
               (Alt (Seq (Lit CHR ''2'') Digit)
                    (Seq (Lit CHR ''3'') (Alt (Lit CHR ''0'') (Lit CHR ''1''))))"
  let ?tail = "Seq dot (Seq (Plus Digit) (Seq dot (Plus Digit)))"
  have 1: "test (anchored (Seq (word ''172'') (Seq dot (Seq ?alt ?tail)))) h \<longleftrightarrow>
           (\<exists>v. h = ''172'' @ v \<and> v \<in> lang False (Seq dot (Seq ?alt ?tail)))"
    by (simp only: test_anchored in_seq_word)
  have 2: "v \<in> lang False (Seq dot (Seq ?alt ?tail)) \<longleftrightarrow>
           (\<exists>w. v = ''.'' @ w \<and> w \<in> lang False (Seq ?alt ?tail))" for v
    by (rule in_seq_dot)
  have 3: "w \<in> lang False (Seq ?alt ?tail) \<longleftrightarrow>
           (\<exists>b x. w = b @ x \<and> b \<in> lang False ?alt \<and> x \<in> lang False ?tail)" for w
    by (rule in_seq)
  show ?thesis
    unfolding 1 2 3 second_octet tail2 dotted.simps by blast
qed

lemma pattern_192:
  "test (anchored (Seq (word ''192'') (Seq dot (Seq (word ''168'') (Seq dot (Seq (Plus Digit)
        (Seq dot (Plus Digit)))))))) h \<longleftrightarrow>
   (\<exists>c d. h = dotted [''192'', ''168'', c, d] \<and> digits c \<and> digits d)"
proof -
  let ?tail = "Seq dot (Seq (Plus Digit) (Seq dot (Plus Digit)))"
  have 1: "test (anchored (Seq (word ''192'') (Seq dot (Seq (word ''168'') ?tail)))) h \<longleftrightarrow>
           (\<exists>v. h = ''192'' @ v \<and> v \<in> lang False (Seq dot (Seq (word ''168'') ?tail)))"
    by (simp only: test_anchored in_seq_word)
  have 2: "v \<in> lang False (Seq dot (Seq (word ''168'') ?tail)) \<longleftrightarrow>
           (\<exists>w. v = ''.'' @ w \<and> w \<in> lang False (Seq (word ''168'') ?tail))" for v
    by (rule in_seq_dot)
  have 3: "w \<in> lang False (Seq (word ''168'') ?tail) \<longleftrightarrow>
           (\<exists>x. w = ''168'' @ x \<and> x \<in> lang False ?tail)" for w
    by (rule in_seq_word)
  show ?thesis
    unfolding 1 2 3 tail2 dotted.simps by blast
qed

lemma pattern_localhost:
  "test ((anchored (word ''localhost''))\<lparr>ignore_case := True\<rparr>) h \<longleftrightarrow>
   map lower_char h = ''localhost''"
proof -
  have "map lower_char ''localhost'' = ''localhost''" by (simp add: lower_char_def)
  then show ?thesis by (simp only: test_anchored_i in_word_i)
qed

lemma pattern_local:
  "test \<lparr>from_start = False, pattern = Seq dot (word ''local''), to_end = True,
         ignore_case = True\<rparr> h \<longleftrightarrow>
   (\<exists>p q. h = p @ q \<and> map lower_char q = ''.local'')"
proof -
  have w: "Seq dot (word ''local'') = word ''.local''" by (simp add: dot_def)
  have l: "map lower_char ''.local'' = ''.local''" by (simp add: lower_char_def)
  have "test \<lparr>from_start = False, pattern = Seq dot (word ''local''), to_end = True,
               ignore_case = True\<rparr> h \<longleftrightarrow>
        (\<exists>p q. h = p @ q \<and> q \<in> lang True (word ''.local''))"
    unfolding test_lang w by simp
  then show ?thesis unfolding in_word_i l .
qed

lemma in_seq_words:
  "s \<in> lang True (Seq (word a) (word b)) \<longleftrightarrow> map lower_char s = map lower_char (a @ b)"
proof
  assume "s \<in> lang True (Seq (word a) (word b))"
  then obtain u v where "s = u @ v" "map lower_char u = map lower_char a"
      "map lower_char v = map lower_char b"
    unfolding in_seq in_word_i by blast
  then show "map lower_char s = map lower_char (a @ b)" by simp
next
  assume "map lower_char s = map lower_char (a @ b)"
  then have "map lower_char s = map lower_char a @ map lower_char b" by simp
  then obtain u v where "s = u @ v" "map lower_char a = map lower_char u"
      "map lower_char b = map lower_char v"
    unfolding map_eq_append_conv by blast
  then have "s = u @ v \<and> u \<in> lang True (word a) \<and> v \<in> lang True (word b)"
    unfolding in_word_i by simp
  then show "s \<in> lang True (Seq (word a) (word b))"
    unfolding in_seq by blast
qed

lemma pattern_localdomain:
  "test ((anchored (Seq (word ''localhost'') (Seq dot (word ''localdomain''))))
          \<lparr>ignore_case := True\<rparr>) h \<longleftrightarrow>
   map lower_char h = ''localhost.localdomain''"
proof -
  have w: "Seq dot (word ''localdomain'') = word ''.localdomain''" by (simp add: dot_def)
  have l: "map lower_char (''localhost'' @ ''.localdomain'') = ''localhost.localdomain''"
    by (simp add: lower_char_def)
  show ?thesis
    unfolding test_anchored_i w in_seq_words l ..
qed

lemma pattern_word: "test (anchored (word w)) h \<longleftrightarrow> h = w"
  by (simp only: test_anchored in_word)

lemma privatePatterns_blocked:
  "list_ex (\<lambda>p. test p h) privatePatterns \<longleftrightarrow> blocked_host h \<or> h = ''::1''"
  unfolding privatePatterns_def list_ex_Cons_iff list_ex_Nil_iff blocked_host_def
    pattern_localhost pattern_local pattern_localdomain
    quad_pattern pattern_172 pattern_192 pattern_word
  by blast

text \<open>
  The pattern for the IPv6 loopback address takes the bare form only: the form in
  brackets, which \<^verbatim>\<open>URL.hostname\<close> gives, passes all nine patterns.
\<close>

lemma ipv6_loopback_patterns:
  "list_ex (\<lambda>p. test p ''::1'') privatePatterns \<and>
   \<not> list_ex (\<lambda>p. test p ''[::1]'') privatePatterns"
  by (simp add: privatePatterns_def test_def anchored_def matches_def dot_def is_digit_def
      lower_char_def)

subsection \<open>Validation of a source URL\<close>

lemma sourceQueries_create_sources:
  "sources (snd (sourceQueries_create e st u name url type en)) =
     sources st @ [\<lparr>s_id = next_rowid (sources_seq st) (map s_id (sources st)), s_user_id = u,
                    s_name = name, s_url = url, s_type = type, s_enabled = en,
                    s_created_at = clock e (tick st)\<rparr>]"
  by (simp add: sourceQueries_create_def saveDatabase_def Let_def)

lemma post_sources_passed:
  assumes "sess_userId sess = Some u" "u \<noteq> []" "truthy name" "truthy url" "truthy type"
    "new_URL e (the url) = Some p" "protocol p = ''http:'' \<or> protocol p = ''https:''"
    "\<not> blocked_host (toLowerCase e (hostname p))"
    "\<not> ipv6_loopback (toLowerCase e (hostname p))"
  shows "res_status (fst (post_sources e st sess name url type)) \<noteq> 400"
    and "sources (snd (post_sources e st sess name url type)) =
           sources st @ [new_source e st u (the name) (the url) (the type)]"
proof -
  let ?c = "sourceQueries_create e st u (the name) (the url) (the type) 1"
  obtain r st' where c: "?c = (r, st')" by (cases ?c)
  from assms(8,9) have "\<not> list_ex (\<lambda>re. test re (toLowerCase e (hostname p))) privatePatterns"
    unfolding privatePatterns_blocked by (simp add: ipv6_loopback_def)
  with assms have ps: "post_sources e st sess name url type =
      (case r of Inl err \<Rightarrow> (reply 500 (Error_json ''Failed to add source''), st')
               | Inr new_id \<Rightarrow> (reply 200 (Success_id_json new_id), st'))"
    by (auto simp: post_sources_def truthy_def c)
  show "res_status (fst (post_sources e st sess name url type)) \<noteq> 400"
    unfolding ps by (cases r) (simp_all add: reply_def)
  have "snd (post_sources e st sess name url type) = snd ?c"
    unfolding ps c by (cases r) simp_all
  then show "sources (snd (post_sources e st sess name url type)) =
           sources st @ [new_source e st u (the name) (the url) (the type)]"
    by (simp add: sourceQueries_create_sources new_source_def)
qed

text \<open>
  C3, as amended: for an authenticated user, POST /api/sources answers 400 and leaves the
  state as it is when name, url or type is missing, when \<^verbatim>\<open>new URL\<close> rejects the url,
  when the protocol is neither http: nor https:, and when the lowercased hostname is
  localhost or localhost.localdomain or ends in .local (an ASCII letter in either case),
  or is made of four dot-separated groups of which the last three (two) are runs of digits
  and the first is 127, 0 or 10, or the first two are 172 and one of 16 to 31, or 192 and
  168. Every other request, the IPv6 loopback address as its host apart, passes the
  validation: the answer is not 400 and the source is inserted for the user. There is no
  pattern for 169.254.0.0/16. What the route does with the IPv6 loopback address is left
  out of the statement.
\<close>

theorem C3_source_url_validation:
  assumes "sess_userId sess = Some u" and "u \<noteq> []"
  shows "(\<not> truthy name \<or> \<not> truthy url \<or> \<not> truthy type \<longrightarrow>
            post_sources e st sess name url type =
              (reply 400 (Error_json ''Missing required fields''), st)) \<and>
         (truthy name \<and> truthy url \<and> truthy type \<longrightarrow>
            (new_URL e (the url) = None \<longrightarrow>
               post_sources e st sess name url type =
                 (reply 400 (Error_json ''Invalid URL format''), st)) \<and>
            (\<forall>p. new_URL e (the url) = Some p \<longrightarrow>
               (protocol p \<noteq> ''http:'' \<and> protocol p \<noteq> ''https:'' \<longrightarrow>
                  post_sources e st sess name url type =
                    (reply 400 (Error_json ''URL must use HTTP or HTTPS''), st)) \<and>
               ((protocol p = ''http:'' \<or> protocol p = ''https:'') \<and>
                blocked_host (toLowerCase e (hostname p)) \<longrightarrow>
                  post_sources e st sess name url type =
                    (reply 400 (Error_json ''Private/local URLs are not allowed''), st)) \<and>
               ((protocol p = ''http:'' \<or> protocol p = ''https:'') \<and>
                \<not> blocked_host (toLowerCase e (hostname p)) \<and>
                \<not> ipv6_loopback (toLowerCase e (hostname p)) \<longrightarrow>
                  res_status (fst (post_sources e st sess name url type)) \<noteq> 400 \<and>
                  sources (snd (post_sources e st sess name url type)) =
                    sources st @ [new_source e st u (the name) (the url) (the type)])))"
proof -
  have auth: "truthy (sess_userId sess)" using assms by (simp add: truthy_def)
  have a: "post_sources e st sess name url type =
              (reply 400 (Error_json ''Missing required fields''), st)"
    if "\<not> truthy name \<or> \<not> truthy url \<or> \<not> truthy type"
    using that auth by (auto simp: post_sources_def)
  have b: "post_sources e st sess name url type =
                 (reply 400 (Error_json ''Invalid URL format''), st)"
    if "truthy name \<and> truthy url \<and> truthy type" "new_URL e (the url) = None"
    using that auth by (simp add: post_sources_def)
  have c: "post_sources e st sess name url type =
                    (reply 400 (Error_json ''URL must use HTTP or HTTPS''), st)"
    if "truthy name \<and> truthy url \<and> truthy type" "new_URL e (the url) = Some p"
       "protocol p \<noteq> ''http:'' \<and> protocol p \<noteq> ''https:''" for p
    using that auth by (simp add: post_sources_def)
  have d: "post_sources e st sess name url type =
                    (reply 400 (Error_json ''Private/local URLs are not allowed''), st)"
    if "truthy name \<and> truthy url \<and> truthy type" "new_URL e (the url) = Some p"
       "(protocol p = ''http:'' \<or> protocol p = ''https:'') \<and>
        blocked_host (toLowerCase e (hostname p))"
    for p
    using that auth by (auto simp: post_sources_def privatePatterns_blocked)
  have f: "res_status (fst (post_sources e st sess name url type)) \<noteq> 400 \<and>
           sources (snd (post_sources e st sess name url type)) =
             sources st @ [new_source e st u (the name) (the url) (the type)]"
    if "truthy name \<and> truthy url \<and> truthy type" "new_URL e (the url) = Some p"
       "(protocol p = ''http:'' \<or> protocol p = ''https:'') \<and>
        \<not> blocked_host (toLowerCase e (hostname p)) \<and>
        \<not> ipv6_loopback (toLowerCase e (hostname p))"
    for p
    using that post_sources_passed[OF assms, of name url type e p st] by blast
  from a b c d f show ?thesis by blast
qed

lemma demo_lowered_hosts:
  "toLowerCase demo_url_env ''10.0.0.5'' = ''10.0.0.5''"
  "toLowerCase demo_url_env ''news.example'' = ''news.example''"
  "toLowerCase demo_url_env ''169.254.169.254'' = ''169.254.169.254''"
  by (simp_all add: demo_url_env_def demo_env_def demo_toLowerCase_def lower_char_def)

lemma blocked_10: "blocked_host (toLowerCase demo_url_env ''10.0.0.5'')"
proof -
  have "list_ex (\<lambda>p. test p ''10.0.0.5'') privatePatterns"
    by (simp add: privatePatterns_def test_def anchored_def matches_def dot_def is_digit_def
        lower_char_def)
  then have "blocked_host ''10.0.0.5''"
    unfolding privatePatterns_blocked by simp
  then show ?thesis by (simp only: demo_lowered_hosts)
qed

lemma not_blocked_news:
  "\<not> blocked_host (toLowerCase demo_url_env ''news.example'') \<and>
   \<not> ipv6_loopback (toLowerCase demo_url_env ''news.example'')"
proof -
  have "\<not> list_ex (\<lambda>p. test p ''news.example'') privatePatterns"
    by (simp add: privatePatterns_def test_def anchored_def matches_def dot_def is_digit_def
        lower_char_def)
  then have "\<not> blocked_host ''news.example''"
    unfolding privatePatterns_blocked by simp
  then show ?thesis by (simp add: demo_lowered_hosts ipv6_loopback_def)
qed

theorem C3_source_url_validation_witness:
  "sess_userId demo_session = Some ''bob'' \<and> ''bob'' \<noteq> [] \<and>
   post_sources demo_url_env demo_state demo_session (Some ''Feed'') None (Some ''rss'') =
     (reply 400 (Error_json ''Missing required fields''), demo_state) \<and>
   post_sources demo_url_env demo_state demo_session (Some ''Feed'') (Some ''not a url'')
       (Some ''rss'') =
     (reply 400 (Error_json ''Invalid URL format''), demo_state) \<and>
   post_sources demo_url_env demo_state demo_session (Some ''Feed'')
       (Some ''ftp://files.example/rss'') (Some ''rss'') =
     (reply 400 (Error_json ''URL must use HTTP or HTTPS''), demo_state) \<and>
   post_sources demo_url_env demo_state demo_session (Some ''Feed'')
       (Some ''http://10.0.0.5/feed'') (Some ''rss'') =
     (reply 400 (Error_json ''Private/local URLs are not allowed''), demo_state) \<and>
   sources (snd (post_sources demo_url_env demo_state demo_session (Some ''Feed'')
       (Some ''https://News.Example/rss'') (Some ''rss''))) =
     sources demo_state @
       [new_source demo_url_env demo_state ''bob'' ''Feed'' ''https://News.Example/rss'' ''rss'']"
proof -
  have s: "sess_userId demo_session = Some ''bob''" "''bob'' \<noteq> []"
    by (simp_all add: demo_session_def)
  have u: "new_URL demo_url_env ''not a url'' = None"
    "new_URL demo_url_env ''ftp://files.example/rss'' =
       Some \<lparr>protocol = ''ftp:'', hostname = ''files.example''\<rparr>"
    "new_URL demo_url_env ''http://10.0.0.5/feed'' =
       Some \<lparr>protocol = ''http:'', hostname = ''10.0.0.5''\<rparr>"
    "new_URL demo_url_env ''https://News.Example/rss'' =
       Some \<lparr>protocol = ''https:'', hostname = ''news.example''\<rparr>"
    by (simp_all add: demo_url_env_def demo_new_URL_def)
  note t = C3_source_url_validation [OF s, where e = demo_url_env and st = demo_state]
  from t [of "Some ''Feed''" None "Some ''rss''"]
  have 1: "post_sources demo_url_env demo_state demo_session (Some ''Feed'') None (Some ''rss'') =
     (reply 400 (Error_json ''Missing required fields''), demo_state)"
    by (simp add: truthy_def)
  from t [of "Some ''Feed''" "Some ''not a url''" "Some ''rss''"] u(1)
  have 2: "post_sources demo_url_env demo_state demo_session (Some ''Feed'') (Some ''not a url'')
       (Some ''rss'') = (reply 400 (Error_json ''Invalid URL format''), demo_state)"
    by (simp add: truthy_def)
  from t [of "Some ''Feed''" "Some ''ftp://files.example/rss''" "Some ''rss''"] u(2)
  have 3: "post_sources demo_url_env demo_state demo_session (Some ''Feed'')
       (Some ''ftp://files.example/rss'') (Some ''rss'') =
     (reply 400 (Error_json ''URL must use HTTP or HTTPS''), demo_state)"
    by (simp add: truthy_def)
  from t [of "Some ''Feed''" "Some ''http://10.0.0.5/feed''" "Some ''rss''"] u(3) blocked_10
  have 4: "post_sources demo_url_env demo_state demo_session (Some ''Feed'')
       (Some ''http://10.0.0.5/feed'') (Some ''rss'') =
     (reply 400 (Error_json ''Private/local URLs are not allowed''), demo_state)"
    by (simp add: truthy_def)
  from t [of "Some ''Feed''" "Some ''https://News.Example/rss''" "Some ''rss''"] u(4)
    not_blocked_news
  have 5: "sources (snd (post_sources demo_url_env demo_state demo_session (Some ''Feed'')
       (Some ''https://News.Example/rss'') (Some ''rss''))) =
     sources demo_state @
       [new_source demo_url_env demo_state ''bob'' ''Feed'' ''https://News.Example/rss'' ''rss'']"
    by (simp add: truthy_def)
  from s 1 2 3 4 5 show ?thesis by (intro conjI)
qed

text \<open>
  The claim as stated fails for link-local hosts: a source at 169.254.169.254 is created.
  (The id in the answer is 0, since the export that saves the database comes before
  \<^verbatim>\<open>last_insert_rowid()\<close> is read; the row has the id 2.)
\<close>

theorem C3_link_local_counterexample:
  "new_URL demo_url_env ''http://169.254.169.254/latest/meta-data'' =
     Some \<lparr>protocol = ''http:'', hostname = ''169.254.169.254''\<rparr> \<and>
   fst (post_sources demo_url_env demo_state demo_session (Some ''Metadata'')
       (Some ''http://169.254.169.254/latest/meta-data'') (Some ''rss'')) =
     reply 200 (Success_id_json 0) \<and>
   sources (snd (post_sources demo_url_env demo_state demo_session (Some ''Metadata'')
       (Some ''http://169.254.169.254/latest/meta-data'') (Some ''rss''))) =
     [demo_source,
      \<lparr>s_id = 2, s_user_id = ''bob'', s_name = ''Metadata'',
       s_url = ''http://169.254.169.254/latest/meta-data'', s_type = ''rss'', s_enabled = 1,
       s_created_at = ''2026-11-03 10:00:00''\<rparr>]"
  by (simp add: post_sources_def demo_url_env_def demo_new_URL_def demo_env_def demo_state_def
      demo_session_def truthy_def sourceQueries_create_def saveDatabase_def next_rowid_def
      demo_source_def Let_def
      privatePatterns_def test_def anchored_def matches_def dot_def is_digit_def
      lower_char_def demo_toLowerCase_def)

subsection \<open>A link that another user has stored\<close>

text \<open>
  C1 at a failing input: bob has no stored article; the feed of his source delivers the
  links .../1 and .../2, and .../1 is stored for alice. Neither link is stored for bob, so
  both entries should be inserted. The INSERT of .../1 violates UNIQUE(link), which holds
  over the whole table; the exception leaves the loop over the entries, and bob gets
  neither article.
\<close>

theorem C1_link_of_another_user_blocks_the_source:
  "map fi_link demo_feed = [Some ''https://news.example/1'', Some ''https://news.example/2''] \<and>
   map a_link (articleQueries_findByUser demo_shared ''bob'') = [] \<and>
   fetchSource demo_env demo_shared demo_source = Inr (map item_of demo_feed) \<and>
   fst (fetchArticles demo_env demo_shared ''bob'') =
     \<lparr>success = True, message = ''Fetched 0 new articles. Total: 0''\<rparr> \<and>
   articles (snd (fetchArticles demo_env demo_shared ''bob'')) = articles demo_shared \<and>
   articleQueries_findByUser (snd (fetchArticles demo_env demo_shared ''bob'')) ''bob'' = []"
  by (auto simp add: fetchArticles_def demo_shared_def demo_state_def demo_env_def demo_source_def
      demo_feed_def sourceQueries_findByUser_def articleQueries_findByUser_def order_by_desc_def
      fetchSource_def item_of_def truthy_def summarizeArticle_def articleQueries_create_def
      saveDatabase_def next_rowid_def prune_def articleQueries_countByUser_def MAX_ARTICLES_def
      dec.simps Let_def)

subsection \<open>Keys of the articles table\<close>

lemma create_distinct_links:
  assumes "distinct (map a_link (articles st))"
  shows "distinct (map a_link (articles (snd (articleQueries_create e st u sid sn t l sm p))))"
  using create_articles[of e st u sid sn t l sm p] assms by auto

lemma insert_items_distinct_links:
  "distinct (map a_link (articles st)) \<Longrightarrow>
   distinct (map a_link (articles (fst (snd (insert_items e u src its st L n)))))"
proof (induction its arbitrary: st L n)
  case Nil
  then show ?case by simp
next
  case (Cons it its)
  let ?c = "articleQueries_create e st u (s_id src) (s_name src) (it_title it) (it_link it)
              (summarizeArticle (Some (it_content it))) (it_published it)"
  from Cons.prems have d: "distinct (map a_link (articles (snd ?c)))"
    by (rule create_distinct_links)
  obtain r st1 where c: "?c = (r, st1)" by (cases ?c)
  with d have d1: "distinct (map a_link (articles st1))" by simp
  show ?case
  proof (cases "it_link it \<in> L")
    case True
    with Cons show ?thesis by simp
  next
    case False
    with c d1 Cons.IH[OF d1] show ?thesis
      by (cases r) simp_all
  qed
qed

lemma fetch_sources_distinct_links:
  "distinct (map a_link (articles st)) \<Longrightarrow>
   distinct (map a_link (articles (fst (fetch_sources e u srcs st L n))))"
proof (induction srcs arbitrary: st L n)
  case Nil
  then show ?case by simp
next
  case (Cons src srcs)
  show ?case
  proof (cases "fetchSource e st src")
    case (Inl err)
    with Cons show ?thesis by simp
  next
    case (Inr items)
    obtain r st1 L1 n1 where i: "insert_items e u src items st L n = (r, st1, L1, n1)"
      by (cases "insert_items e u src items st L n") auto
    from insert_items_distinct_links[OF Cons.prems, of e u src items L n] i
    have "distinct (map a_link (articles st1))" by simp
    from Cons.IH[OF this] Inr i show ?thesis by simp
  qed
qed

lemma prune_distinct:
  "distinct (map f (articles st)) \<Longrightarrow> distinct (map f (articles (snd (prune e st u))))"
  by (simp add: prune_articles distinct_map_filter)

lemma fetchArticles_distinct_links:
  assumes "distinct (map a_link (articles st))"
  shows "distinct (map a_link (articles (snd (fetchArticles e st u))))"
proof (cases "isRunning st")
  case True
  with assms show ?thesis by (simp add: fetchArticles_busy)
next
  case False
  have "distinct (map a_link (articles (after_insertions e st u)))"
    unfolding after_insertions_def using assms by (intro fetch_sources_distinct_links) simp
  then show ?thesis
    by (simp add: fetchArticles_state[OF False] prune_distinct)
qed

lemma fetchArticles_distinct_ids:
  assumes "distinct (map a_id (articles st))"
  shows "distinct (map a_id (articles (snd (fetchArticles e st u))))"
proof (cases "isRunning st")
  case True
  with assms show ?thesis by (simp add: fetchArticles_busy)
next
  case False
  from assms have "distinct (map a_id (articles (after_insertions e st u)))"
    by (rule after_insertions_distinct_ids)
  then show ?thesis
    by (simp add: fetchArticles_state[OF False] prune_distinct)
qed

lemma register_articles [simp]:
  "articles (fst (snd (register e st sess email password))) = articles st"
  by (simp add: register_def userQueries_create_def saveDatabase_def Let_def
      split: option.splits prod.splits sum.splits)

lemma post_sources_articles [simp]:
  "articles (snd (post_sources e st sess name url type)) = articles st"
  by (simp add: post_sources_def sourceQueries_create_def saveDatabase_def Let_def
      split: option.splits prod.splits sum.splits)

lemma delete_source_articles [simp]:
  "articles (snd (delete_source e st sess idp)) = articles st"
  by (simp add: delete_source_def sourceQueries_delete_def saveDatabase_def Let_def
      split: option.splits prod.splits sum.splits)

lemma reachable_articles_keys:
  "reachable e st \<Longrightarrow>
   distinct (map a_id (articles st)) \<and> distinct (map a_link (articles st))"
proof (induction rule: reachable.induct)
  case started
  show ?case by (simp add: initial_state_def)
next
  case (fetched st sess)
  then show ?case
    using post_fetch_state[of e st sess]
      fetchArticles_distinct_ids[of st e "the (sess_userId sess)"]
      fetchArticles_distinct_links[of st e "the (sess_userId sess)"]
    by auto
qed simp_all

lemma reachable_links_per_user:
  assumes "reachable e st"
  shows "distinct (map a_link (filter (\<lambda>a. a_user_id a = u) (articles st)))"
  using reachable_articles_keys[OF assms] by (simp add: distinct_map_filter)

end
